theory Spec2Isabelle
  imports Complex_Main
begin

section \<open>Python strings\<close>

text \<open>
  A Python \<open>str\<close> is a sequence of Unicode code points; a code point is a natural
  number, so that \<open>len\<close> and iteration count what Python counts. ASCII literals of
  the source are written \<open>str ''...''\<close>.
\<close>

type_synonym pystr = "nat list"

definition str :: "string \<Rightarrow> pystr" where
  "str = map of_char"

text \<open>
  \<open>str.isspace\<close>: the 29 code points that Python classifies as whitespace.
\<close>

definition py_isspace :: "nat \<Rightarrow> bool" where
  "py_isspace c =
     ((9 \<le> c \<and> c \<le> 13) \<or> (28 \<le> c \<and> c \<le> 32) \<or> c = 133 \<or> c = 160 \<or> c = 5760 \<or>
      (8192 \<le> c \<and> c \<le> 8202) \<or> c = 8232 \<or> c = 8233 \<or> c = 8239 \<or> c = 8287 \<or> c = 12288)"

text \<open>
  \<open>str.isalnum\<close> is Unicode-aware. On ASCII it holds for the letters and digits; on
  the rest of Latin-1 for the letters, the superscript digits and the vulgar fractions.
  Beyond code point 255 the answer comes from the Unicode character database of the
  running interpreter, which is taken as the parameter \<open>ucd\<close>.
\<close>

definition ascii_alnum :: "nat \<Rightarrow> bool" where
  "ascii_alnum c = ((48 \<le> c \<and> c \<le> 57) \<or> (65 \<le> c \<and> c \<le> 90) \<or> (97 \<le> c \<and> c \<le> 122))"

definition latin1_alnum :: "nat \<Rightarrow> bool" where
  "latin1_alnum c =
     (c = 170 \<or> c = 178 \<or> c = 179 \<or> c = 181 \<or> c = 185 \<or> c = 186 \<or>
      c = 188 \<or> c = 189 \<or> c = 190 \<or>
      (192 \<le> c \<and> c \<le> 214) \<or> (216 \<le> c \<and> c \<le> 246) \<or> (248 \<le> c \<and> c \<le> 255))"

definition py_isalnum :: "(nat \<Rightarrow> bool) \<Rightarrow> nat \<Rightarrow> bool" where
  "py_isalnum ucd c =
     (if c < 128 then ascii_alnum c else if c < 256 then latin1_alnum c else ucd c)"

text \<open>\<open>s.strip()\<close>: leading and trailing whitespace removed.\<close>

definition py_strip :: "pystr \<Rightarrow> pystr" where
  "py_strip s = rev (dropWhile py_isspace (rev (dropWhile py_isspace s)))"

text \<open>
  \<open>s.split()\<close> with no separator: skip whitespace, take the run of non-whitespace
  characters as the next word, repeat; no empty word is produced.
\<close>

function py_split :: "pystr \<Rightarrow> pystr list" where
  "py_split s =
     (if dropWhile py_isspace s = [] then []
      else takeWhile (\<lambda>c. \<not> py_isspace c) (dropWhile py_isspace s) #
           py_split (dropWhile (\<lambda>c. \<not> py_isspace c) (dropWhile py_isspace s)))"
  by pat_completeness auto
termination
proof (relation "measure length")
  show "wf (measure length)" by simp
next
  fix s :: pystr
  assume ne: "dropWhile py_isspace s \<noteq> []"
  then obtain c cs where eq: "dropWhile py_isspace s = c # cs"
    by (cases "dropWhile py_isspace s") auto
  have "\<not> py_isspace c"
    using hd_dropWhile [OF ne] eq by simp
  then have "length (dropWhile (\<lambda>c. \<not> py_isspace c) (c # cs)) \<le> length cs"
    by (simp add: length_dropWhile_le)
  moreover have "length (c # cs) \<le> length s"
    using length_dropWhile_le [of py_isspace s] eq by simp
  ultimately show
    "(dropWhile (\<lambda>c. \<not> py_isspace c) (dropWhile py_isspace s), s) \<in> measure length"
    using eq by simp
qed

declare py_split.simps [simp del]

text \<open>\<open>sep.join(words)\<close>.\<close>

fun py_join :: "pystr \<Rightarrow> pystr list \<Rightarrow> pystr" where
  "py_join sep [] = []"
| "py_join sep [w] = w"
| "py_join sep (w # v # ws) = w @ sep @ py_join sep (v # ws)"

section \<open>Sanitising names\<close>

definition safe_chars :: pystr where
  "safe_chars = str ''-_.() ''"

text \<open>The generator expression of \<open>sanitize_name\<close>, for one character.\<close>

definition sanitize_char :: "(nat \<Rightarrow> bool) \<Rightarrow> nat \<Rightarrow> nat" where
  "sanitize_char ucd c = (if py_isalnum ucd c \<or> c \<in> set safe_chars then c else 95)"

definition sanitize_name :: "(nat \<Rightarrow> bool) \<Rightarrow> pystr \<Rightarrow> pystr" where
  "sanitize_name ucd name =
     py_join (str '' '') (py_split (py_strip (map (sanitize_char ucd) name)))"

subsection \<open>The specification's reading of sanitisation\<close>

text \<open>
  The character class \<open>[A-Za-z0-9\-_.() ]\<close> of the specification, and its procedure
  in its own words: keep the characters of a class, replace every other character with an
  underscore, trim, and collapse each run of whitespace to one space.
\<close>

definition spec_class :: "nat \<Rightarrow> bool" where
  "spec_class c = (ascii_alnum c \<or> c = 45 \<or> c = 95 \<or> c = 46 \<or> c = 40 \<or> c = 41 \<or> c = 32)"

fun collapse_ws :: "pystr \<Rightarrow> pystr" where
  "collapse_ws [] = []"
| "collapse_ws [c] = [if py_isspace c then 32 else c]"
| "collapse_ws (c # d # cs) =
     (if py_isspace c \<and> py_isspace d then collapse_ws (d # cs)
      else (if py_isspace c then 32 else c) # collapse_ws (d # cs))"

definition sanitize_by_class :: "(nat \<Rightarrow> bool) \<Rightarrow> pystr \<Rightarrow> pystr" where
  "sanitize_by_class keep name =
     collapse_ws (py_strip (map (\<lambda>c. if keep c then c else 95) name))"

definition sanitize_spec :: "pystr \<Rightarrow> pystr" where
  "sanitize_spec name = sanitize_by_class spec_class name"

section \<open>Paths\<close>

text \<open>\<open>s.split(sep)\<close> for a one-character separator: empty fields are kept.\<close>

fun split_on :: "nat \<Rightarrow> pystr \<Rightarrow> pystr list" where
  "split_on sep [] = [[]]"
| "split_on sep (c # cs) =
     (if c = sep then [] # split_on sep cs
      else (case split_on sep cs of [] \<Rightarrow> [[c]] | w # ws \<Rightarrow> (c # w) # ws))"

text \<open>\<open>s.strip('/')\<close> and \<open>s.rstrip('/')\<close>.\<close>

definition rstrip_slash :: "pystr \<Rightarrow> pystr" where
  "rstrip_slash s = rev (dropWhile (\<lambda>c. c = 47) (rev s))"

definition strip_slash :: "pystr \<Rightarrow> pystr" where
  "strip_slash s = rstrip_slash (dropWhile (\<lambda>c. c = 47) s)"

definition starts_with_slash :: "pystr \<Rightarrow> bool" where
  "starts_with_slash s = (case s of [] \<Rightarrow> False | c # _ \<Rightarrow> c = 47)"

text \<open>
  \<open>posixpath.join(a, *p)\<close>: a component that starts with a slash discards what came
  before it; a separator is inserted unless the path so far is empty or ends with one.
\<close>

definition join_step :: "pystr \<Rightarrow> pystr \<Rightarrow> pystr" where
  "join_step path b =
     (if starts_with_slash b then b
      else if path = [] \<or> last path = 47 then path @ b
      else path @ [47] @ b)"

definition os_path_join :: "pystr \<Rightarrow> pystr list \<Rightarrow> pystr" where
  "os_path_join a p = foldl join_step a p"

text \<open>
  \<open>posixpath.normpath\<close>: one or two leading slashes are kept (three or more become
  one), empty and \<open>.\<close> components are dropped, and \<open>..\<close> removes the component
  before it where there is one to remove.
\<close>

definition initial_slashes :: "pystr \<Rightarrow> nat" where
  "initial_slashes path =
     (if starts_with_slash path
      then (if take 2 path = [47, 47] \<and> take 3 path \<noteq> [47, 47, 47] then 2 else 1)
      else 0)"

definition norm_step :: "nat \<Rightarrow> pystr list \<Rightarrow> pystr \<Rightarrow> pystr list" where
  "norm_step init new_comps part =
     (if part = [] \<or> part = str ''.'' then new_comps
      else if part \<noteq> str ''..'' \<or> (init = 0 \<and> new_comps = []) \<or>
              (new_comps \<noteq> [] \<and> last new_comps = str ''..'')
           then new_comps @ [part]
      else if new_comps \<noteq> [] then butlast new_comps
      else new_comps)"

definition normpath :: "pystr \<Rightarrow> pystr" where
  "normpath path =
     (if path = [] then str ''.''
      else let init = initial_slashes path;
               comps = foldl (norm_step init) [] (split_on 47 path);
               p = replicate init 47 @ py_join (str ''/'') comps
           in if p = [] then str ''.'' else p)"

text \<open>
  \<open>posixpath.split\<close>: the head runs up to and including the last slash, the tail is
  the rest; trailing slashes are stripped from the head unless it consists of slashes only.
\<close>

definition path_head :: "pystr \<Rightarrow> pystr" where
  "path_head p = rev (dropWhile (\<lambda>c. c \<noteq> 47) (rev p))"

definition basename :: "pystr \<Rightarrow> pystr" where
  "basename p = rev (takeWhile (\<lambda>c. c \<noteq> 47) (rev p))"

definition dirname :: "pystr \<Rightarrow> pystr" where
  "dirname p =
     (let head = path_head p
      in if head \<noteq> [] \<and> head \<noteq> replicate (length head) 47 then rstrip_slash head else head)"

section \<open>The interpreter and the world outside\<close>

text \<open>
  The exceptions that leave the methods of \<open>BookFS\<close>. The three that the adapter
  raises itself carry an errno: \<open>FileNotFoundError(ENOENT)\<close>, \<open>OSError(EACCES)\<close>
  and \<open>OSError(EIO)\<close>; the others come from library calls. \<open>OSError\<close> stands for
  an operating-system error of a library call, whatever its errno and subclass.
\<close>

datatype error =
    NotFound
  | AccessDenied
  | IOError
  | TypeError
  | ValueError
  | OverflowError
  | MemoryError
  | LookupError
  | OSError

text \<open>
  What a handler \<open>except (OSError, IOError)\<close> catches: the instances of \<open>OSError\<close>,
  of which \<open>FileNotFoundError\<close> is a subclass and \<open>IOError\<close> another name.
\<close>

definition is_oserror :: "error \<Rightarrow> bool" where
  "is_oserror e = (e = NotFound \<or> e = AccessDenied \<or> e = IOError \<or> e = OSError)"

text \<open>The value of \<open>float(s)\<close> when it returns; a finite double is a rational.\<close>

datatype pyfloat = Finite rat | Infinite | NaN

text \<open>
  What \<open>ET.parse\<close> and the four \<open>root.find\<close> calls of \<open>parse_metadata\<close> give
  for a descriptor. An element that is found has a text, which is \<open>None\<close> for an
  empty element; a \<open>meta\<close> element that is found has a \<open>content\<close> attribute or not.
  \<open>ET.parse\<close> returns a tree, or raises \<open>ET.ParseError\<close> for markup that is not well
  formed, or raises another exception: \<open>OSError\<close> for a file that cannot be opened,
  \<open>ValueError\<close> for a declared multi-byte encoding, \<open>LookupError\<close> for a declared
  encoding that is unknown.
\<close>

record opf_doc =
  creator_elem :: "pystr option option"
  title_elem :: "pystr option option"
  series_elem :: "pystr option option"
  series_index_elem :: "pystr option option"

datatype xml_result = ParseError | Raised error | Parsed opf_doc

text \<open>
  The real directory tree. \<open>Unlisted\<close> is an entry that \<open>os.walk\<close> reports among
  the directory names of its parent and does not descend into (an unreadable directory,
  a symbolic link to a directory).
\<close>

datatype fsnode = File | Unlisted | Dir "(pystr \<times> fsnode) list"

text \<open>
  Everything the program asks of its environment: the Unicode table beyond Latin-1, the
  builtin \<open>float\<close> on strings (\<open>None\<close> is \<open>ValueError\<close>), the XML parser, the
  directory tree below \<open>/\<close> and the working directory at build time, and at query time
  the outcome of \<open>os.path.getsize\<close> (the size or the exception raised) and of
  \<open>open(path, 'rb')\<close> (the bytes of the file or the exception raised: \<open>OSError\<close>
  for a file that cannot be opened, \<open>ValueError\<close> for a path that the operating system
  cannot be given), the largest offset that the filesystem of a real file lets \<open>seek\<close>
  go to, the largest buffer that the interpreter can allocate, and whether the operating
  system fails a read of the opened file at a position and with a size (an input/output
  error of the device, a position that it rejects).
\<close>

record world =
  ucd_alnum :: "nat \<Rightarrow> bool"
  float_of_str :: "pystr \<Rightarrow> pyfloat option"
  et_parse :: "pystr \<Rightarrow> xml_result"
  fs_root :: fsnode
  getcwd :: pystr
  getsize :: "pystr \<Rightarrow> error + nat"
  file_bytes :: "pystr \<Rightarrow> error + nat list"
  max_offset :: "pystr \<Rightarrow> nat"
  max_alloc :: nat
  read_fault :: "pystr \<Rightarrow> nat \<Rightarrow> int \<Rightarrow> bool"

section \<open>Metadata parser\<close>

record metadata =
  author :: pystr
  book_title :: pystr
  series :: "pystr option"
  series_index :: "pystr option"

definition default_metadata :: metadata where
  "default_metadata =
     \<lparr>author = str ''Unknown Author'', book_title = str ''Unknown Title'',
      series = None, series_index = None\<rparr>"

text \<open>
  \<open>elem.text if elem is not None else fallback\<close>, followed by \<open>sanitize_name\<close>,
  which iterates over its argument and so raises \<open>TypeError\<close> on \<open>None\<close>.
\<close>

definition text_or :: "pystr option option \<Rightarrow> pystr \<Rightarrow> pystr option" where
  "text_or elem fallback = (case elem of None \<Rightarrow> Some fallback | Some t \<Rightarrow> t)"

definition sanitize_opt :: "world \<Rightarrow> pystr option \<Rightarrow> error + pystr" where
  "sanitize_opt w name =
     (case name of None \<Rightarrow> Inl TypeError | Some n \<Rightarrow> Inr (sanitize_name (ucd_alnum w) n))"

definition content_of :: "pystr option option \<Rightarrow> pystr option" where
  "content_of elem = (case elem of None \<Rightarrow> None | Some c \<Rightarrow> c)"

definition truthy :: "pystr option \<Rightarrow> bool" where
  "truthy v = (case v of None \<Rightarrow> False | Some s \<Rightarrow> s \<noteq> [])"

definition parse_metadata :: "world \<Rightarrow> pystr \<Rightarrow> error + metadata" where
  "parse_metadata w file_path =
     (case et_parse w file_path of
        ParseError \<Rightarrow> Inr default_metadata
      | Raised e \<Rightarrow> Inl e
      | Parsed doc \<Rightarrow>
          (case sanitize_opt w (text_or (creator_elem doc) (str ''Unknown Author'')) of
             Inl e \<Rightarrow> Inl e
           | Inr a \<Rightarrow>
               (case sanitize_opt w (text_or (title_elem doc) (str ''Unknown Title'')) of
                  Inl e \<Rightarrow> Inl e
                | Inr t \<Rightarrow>
                    Inr \<lparr>author = a, book_title = t,
                         series = (if truthy (content_of (series_elem doc))
                                   then map_option (sanitize_name (ucd_alnum w)) (content_of (series_elem doc))
                                   else content_of (series_elem doc)),
                         series_index = content_of (series_index_elem doc)\<rparr>)))"

section \<open>Path deriver\<close>

text \<open>\<open>int(x)\<close> of a float truncates toward zero; \<open>str(n)\<close> is the decimal numeral.\<close>

definition trunc :: "rat \<Rightarrow> int" where
  "trunc r = (if 0 \<le> r then \<lfloor>r\<rfloor> else \<lceil>r\<rceil>)"

fun digits :: "nat \<Rightarrow> pystr" where
  "digits n = (if n < 10 then [48 + n] else digits (n div 10) @ [48 + n mod 10])"

declare digits.simps [simp del]

definition str_of_int :: "int \<Rightarrow> pystr" where
  "str_of_int i = (if i < 0 then 45 # digits (nat (- i)) else digits (nat i))"

text \<open>
  \<open>int(float(metadata['series_index']))\<close>: \<open>float(None)\<close> raises \<open>TypeError\<close>, a
  string that is no float literal raises \<open>ValueError\<close>, \<open>int\<close> of a NaN raises
  \<open>ValueError\<close> and \<open>int\<close> of an infinity raises \<open>OverflowError\<close>.
\<close>

definition int_of_float_of :: "world \<Rightarrow> pystr option \<Rightarrow> error + int" where
  "int_of_float_of w x =
     (case x of
        None \<Rightarrow> Inl TypeError
      | Some s \<Rightarrow>
          (case float_of_str w s of
             None \<Rightarrow> Inl ValueError
           | Some NaN \<Rightarrow> Inl ValueError
           | Some Infinite \<Rightarrow> Inl OverflowError
           | Some (Finite r) \<Rightarrow> Inr (trunc r)))"

definition title_or_unknown :: "metadata \<Rightarrow> pystr" where
  "title_or_unknown m = (if book_title m \<noteq> [] then book_title m else str ''Unknown Book'')"

definition get_book_path :: "world \<Rightarrow> metadata \<Rightarrow> error + pystr" where
  "get_book_path w m =
     (if truthy (series m) then
        (case int_of_float_of w (series_index m) of
           Inr n \<Rightarrow> Inr (os_path_join (author m) [the (series m), str ''Book '' @ str_of_int n])
         | Inl TypeError \<Rightarrow> Inr (os_path_join (author m) [the (series m), title_or_unknown m])
         | Inl ValueError \<Rightarrow> Inr (os_path_join (author m) [the (series m), title_or_unknown m])
         | Inl e \<Rightarrow> Inl e)
      else Inr (os_path_join (author m) [title_or_unknown m]))"

section \<open>Path index and filesystem adapter\<close>

record bookfs =
  root_dir :: pystr
  files :: "pystr \<rightharpoonup> pystr"
  directories :: "pystr set"

record stat =
  st_mode :: nat
  st_size :: "nat option"
  st_nlink :: nat

text \<open>\<open>0o755 | 0o040000\<close> and \<open>0o644 | 0o100000\<close>.\<close>

definition dir_mode :: nat where
  "dir_mode = 493 + 16384"

definition file_mode :: nat where
  "file_mode = 420 + 32768"

definition dir_attrs :: stat where
  "dir_attrs = \<lparr>st_mode = dir_mode, st_size = None, st_nlink = 2\<rparr>"

definition getattr :: "world \<Rightarrow> bookfs \<Rightarrow> pystr \<Rightarrow> error + stat" where
  "getattr w self path0 =
     (let path = normpath path0
      in if path = str ''/'' then Inr dir_attrs
         else if path \<in> dom (files self) then
           (case getsize w (the (files self path)) of
              Inr sz \<Rightarrow> Inr \<lparr>st_mode = file_mode, st_size = Some sz, st_nlink = 1\<rparr>
            | Inl e \<Rightarrow> if is_oserror e then Inl NotFound else Inl e)
         else if path \<in> directories self then Inr dir_attrs
         else Inl NotFound)"

text \<open>
  \<open>readdir\<close> returns \<open>['.', '..']\<close> extended by the elements of a Python set, whose
  iteration order is unspecified: the entries are a set, and a returned list is any
  enumeration of it after the two dots.
\<close>

definition readdir_path :: "pystr \<Rightarrow> pystr" where
  "readdir_path path0 = (if normpath path0 = str ''.'' then str ''/'' else normpath path0)"

definition readdir_entries :: "bookfs \<Rightarrow> pystr \<Rightarrow> pystr set" where
  "readdir_entries self path0 =
     basename ` Set.filter (\<lambda>dir_path. dirname dir_path = readdir_path path0) (directories self) \<union>
     basename ` Set.filter (\<lambda>file_path. dirname file_path = readdir_path path0) (dom (files self))"

definition readdir :: "bookfs \<Rightarrow> pystr \<Rightarrow> pystr list \<Rightarrow> bool" where
  "readdir self path0 dir_entries =
     (take 2 dir_entries = [str ''.'', str ''..''] \<and>
      distinct (drop 2 dir_entries) \<and>
      set (drop 2 dir_entries) = readdir_entries self path0)"

text \<open>
  The file object of \<open>open(path, 'rb')\<close> in CPython on a 64-bit platform; size and
  offset are Python integers. \<open>f.seek(offset)\<close> raises \<open>ValueError\<close> for an offset
  that does not fit a signed 64-bit integer, and \<open>OSError\<close> for one that the operating
  system rejects: a negative one, or one beyond the largest offset of the filesystem.
  \<open>f.read(size)\<close> raises \<open>OverflowError\<close> for a size that does not fit a signed
  64-bit integer and \<open>ValueError\<close> for one below \<open>-1\<close>; a size of \<open>0\<close> gives the
  empty result without reading, and \<open>-1\<close> the rest of the file. Otherwise a buffer of
  \<open>size\<close> bytes is allocated first, which raises \<open>OverflowError\<close> from
  \<open>2 ^ 63 - 33\<close> on (no bytes object is that large) and \<open>MemoryError\<close> beyond what
  the interpreter can allocate; then the file is read up to its end, which raises
  \<open>OSError\<close> when the operating system fails the read.
\<close>

definition file_seek :: "world \<Rightarrow> pystr \<Rightarrow> int \<Rightarrow> error + nat" where
  "file_seek w actual offset =
     (if offset < - (2 ^ 63) \<or> 2 ^ 63 \<le> offset then Inl ValueError
      else if offset < 0 \<or> int (max_offset w actual) < offset then Inl OSError
      else Inr (nat offset))"

definition file_read :: "world \<Rightarrow> pystr \<Rightarrow> nat list \<Rightarrow> nat \<Rightarrow> int \<Rightarrow> error + nat list" where
  "file_read w actual content pos sz =
     (if sz < - (2 ^ 63) \<or> 2 ^ 63 \<le> sz then Inl OverflowError
      else if sz < - 1 then Inl ValueError
      else if sz = 0 then Inr []
      else if sz = - 1 then
        (if read_fault w actual pos sz then Inl OSError
         else if max_alloc w < length (drop pos content) then Inl MemoryError
         else Inr (drop pos content))
      else if 2 ^ 63 - 33 \<le> sz then Inl OverflowError
      else if int (max_alloc w) < sz then Inl MemoryError
      else if read_fault w actual pos sz then Inl OSError
      else Inr (take (nat sz) (drop pos content)))"

text \<open>The body of the \<open>try\<close> of \<open>read\<close>: open, seek, read.\<close>

definition read_at :: "world \<Rightarrow> pystr \<Rightarrow> int \<Rightarrow> int \<Rightarrow> error + nat list" where
  "read_at w actual sz offset =
     (case file_bytes w actual of
        Inl e \<Rightarrow> Inl e
      | Inr content \<Rightarrow>
          (case file_seek w actual offset of
             Inl e \<Rightarrow> Inl e
           | Inr pos \<Rightarrow> file_read w actual content pos sz))"

text \<open>
  \<open>read\<close>: an \<open>OSError\<close> of the body is replaced by \<open>OSError(EIO)\<close>; any other
  exception leaves the method as it is.
\<close>

definition read :: "world \<Rightarrow> bookfs \<Rightarrow> pystr \<Rightarrow> int \<Rightarrow> int \<Rightarrow> error + nat list" where
  "read w self path0 sz offset =
     (let path = normpath path0
      in if path \<in> dom (files self) then
           (case read_at w (the (files self path)) sz offset of
              Inl e \<Rightarrow> if is_oserror e then Inl IOError else Inl e
            | Inr data \<Rightarrow> Inr data)
         else Inl NotFound)"

text \<open>
  The five mutating operations: each returns its exception and the object as it is
  (\<open>write\<close> is \<open>write_op\<close> here).
\<close>

definition create :: "bookfs \<Rightarrow> pystr \<Rightarrow> nat \<Rightarrow> (error + unit) \<times> bookfs" where
  "create self path mode = (Inl AccessDenied, self)"

definition write_op :: "bookfs \<Rightarrow> pystr \<Rightarrow> nat list \<Rightarrow> int \<Rightarrow> (error + unit) \<times> bookfs" where
  "write_op self path data offset = (Inl AccessDenied, self)"

definition mkdir :: "bookfs \<Rightarrow> pystr \<Rightarrow> nat \<Rightarrow> (error + unit) \<times> bookfs" where
  "mkdir self path mode = (Inl AccessDenied, self)"

definition rmdir :: "bookfs \<Rightarrow> pystr \<Rightarrow> (error + unit) \<times> bookfs" where
  "rmdir self path = (Inl AccessDenied, self)"

definition unlink :: "bookfs \<Rightarrow> pystr \<Rightarrow> (error + unit) \<times> bookfs" where
  "unlink self path = (Inl AccessDenied, self)"

section \<open>Walking the real tree\<close>

text \<open>
  Path resolution as the kernel does it, without symbolic links: from the root for an
  absolute path and from the working directory otherwise, one component at a time; the
  position is the list of names from the root. The empty path does not resolve.
\<close>

fun lookup :: "fsnode \<Rightarrow> pystr list \<Rightarrow> fsnode option" where
  "lookup node [] = Some node"
| "lookup (Dir entries) (n # ns) =
     (case map_of entries n of None \<Rightarrow> None | Some child \<Rightarrow> lookup child ns)"
| "lookup File (n # ns) = None"
| "lookup Unlisted (n # ns) = None"

definition is_dir :: "fsnode option \<Rightarrow> bool" where
  "is_dir node = (case node of Some (Dir entries) \<Rightarrow> True | _ \<Rightarrow> False)"

definition resolve_step :: "fsnode \<Rightarrow> pystr list option \<Rightarrow> pystr \<Rightarrow> pystr list option" where
  "resolve_step fs pos part =
     (case pos of
        None \<Rightarrow> None
      | Some ns \<Rightarrow>
          if \<not> is_dir (lookup fs ns) then None
          else if part = [] \<or> part = str ''.'' then Some ns
          else if part = str ''..'' then Some (butlast ns)
          else if lookup fs (ns @ [part]) = None then None
          else Some (ns @ [part]))"

definition resolve :: "world \<Rightarrow> pystr \<Rightarrow> pystr list option" where
  "resolve w path =
     (if path = [] then None
      else foldl (resolve_step (fs_root w)) (Some [])
             (split_on 47 (if starts_with_slash path then path else getcwd w @ [47] @ path)))"

definition node_at :: "world \<Rightarrow> pystr \<Rightarrow> fsnode option" where
  "node_at w path = (case resolve w path of None \<Rightarrow> None | Some ns \<Rightarrow> lookup (fs_root w) ns)"

text \<open>
  \<open>os.walk(top)\<close>, top-down and not following links: a directory that can be listed
  yields its path, the names of its subdirectories and the names of its other entries,
  and is followed by the walks of its subdirectories in listing order.
\<close>

definition dir_names :: "(pystr \<times> fsnode) list \<Rightarrow> pystr list" where
  "dir_names entries = map fst (filter (\<lambda>(n, node). node \<noteq> File) entries)"

definition file_names :: "(pystr \<times> fsnode) list \<Rightarrow> pystr list" where
  "file_names entries = map fst (filter (\<lambda>(n, node). node = File) entries)"

fun walk_node :: "pystr \<Rightarrow> fsnode \<Rightarrow> (pystr \<times> pystr list \<times> pystr list) list"
  and walk_entries :: "pystr \<Rightarrow> (pystr \<times> fsnode) list \<Rightarrow> (pystr \<times> pystr list \<times> pystr list) list"
where
  "walk_node topdir File = []"
| "walk_node topdir Unlisted = []"
| "walk_node topdir (Dir entries) = (topdir, dir_names entries, file_names entries) # walk_entries topdir entries"
| "walk_entries topdir [] = []"
| "walk_entries topdir (e # es) = walk_node (os_path_join topdir [fst e]) (snd e) @ walk_entries topdir es"

definition os_walk :: "world \<Rightarrow> pystr \<Rightarrow> (pystr \<times> pystr list \<times> pystr list) list" where
  "os_walk w topdir = (case node_at w topdir of None \<Rightarrow> [] | Some node \<Rightarrow> walk_node topdir node)"

text \<open>\<open>posixpath.abspath\<close>, \<open>commonprefix\<close> of two lists, and \<open>posixpath.relpath\<close>.\<close>

definition abspath :: "world \<Rightarrow> pystr \<Rightarrow> pystr" where
  "abspath w path =
     normpath (if starts_with_slash path then path else os_path_join (getcwd w) [path])"

fun commonprefix :: "pystr list \<Rightarrow> pystr list \<Rightarrow> pystr list" where
  "commonprefix (x # xs) (y # ys) = (if x = y then x # commonprefix xs ys else [])"
| "commonprefix xs ys = []"

definition relpath :: "world \<Rightarrow> pystr \<Rightarrow> pystr \<Rightarrow> error + pystr" where
  "relpath w path start =
     (if path = [] then Inl ValueError
      else let start_list = filter (\<lambda>x. x \<noteq> []) (split_on 47 (abspath w start));
               path_list = filter (\<lambda>x. x \<noteq> []) (split_on 47 (abspath w path));
               i = length (commonprefix start_list path_list);
               rel_list = replicate (length start_list - i) (str ''..'') @ drop i path_list
           in case rel_list of
                [] \<Rightarrow> Inr (str ''.'')
              | r # rs \<Rightarrow> Inr (os_path_join r rs))"

section \<open>Tree builder\<close>

text \<open>A \<open>for\<close> loop whose body may raise: the first exception ends it.\<close>

fun for_each :: "('s \<Rightarrow> 'a \<Rightarrow> error + 's) \<Rightarrow> 's \<Rightarrow> 'a list \<Rightarrow> error + 's" where
  "for_each body s [] = Inr s"
| "for_each body s (x # xs) =
     (case body s x of Inl e \<Rightarrow> Inl e | Inr s' \<Rightarrow> for_each body s' xs)"

definition find_metadata_files :: "world \<Rightarrow> bookfs \<Rightarrow> pystr list" where
  "find_metadata_files w self =
     map (\<lambda>(dirpath, dirnames, filenames). os_path_join dirpath [str ''metadata.opf''])
       (filter (\<lambda>(dirpath, dirnames, filenames). str ''metadata.opf'' \<in> set filenames)
          (os_walk w (root_dir self)))"

definition add_dir :: "bookfs \<Rightarrow> pystr \<Rightarrow> bookfs" where
  "add_dir self dir_path = self\<lparr>directories := insert dir_path (directories self)\<rparr>"

definition add_file :: "bookfs \<Rightarrow> pystr \<Rightarrow> pystr \<Rightarrow> bookfs" where
  "add_file self virtual_file_path actual_file_path =
     self\<lparr>files := (files self)(virtual_file_path \<mapsto> actual_file_path)\<rparr>"

text \<open>
  \<open>os.path.normpath(os.path.join('/', virtual_book_path, rel_path))\<close>, where
  \<open>rel_path\<close> is the name itself at the top of the book directory and
  \<open>os.path.join(rel_root, name)\<close> below it.
\<close>

definition rebase :: "pystr \<Rightarrow> pystr \<Rightarrow> pystr \<Rightarrow> pystr" where
  "rebase virtual_book_path rel_root name =
     normpath (os_path_join (str ''/'')
       [virtual_book_path,
        if rel_root \<noteq> str ''.'' then os_path_join rel_root [name] else name])"

definition walk_body ::
  "world \<Rightarrow> pystr \<Rightarrow> pystr \<Rightarrow> bookfs \<Rightarrow> pystr \<times> pystr list \<times> pystr list \<Rightarrow> error + bookfs" where
  "walk_body w virtual_book_path book_dir self triple =
     (case triple of (walk_root, dirs, fls) \<Rightarrow>
        (case relpath w walk_root book_dir of
           Inl e \<Rightarrow> Inl e
         | Inr rel_root \<Rightarrow>
             Inr (foldl (\<lambda>s dir_name. add_dir s (rebase virtual_book_path rel_root dir_name))
                    (foldl (\<lambda>s file. add_file s (rebase virtual_book_path rel_root file)
                                         (os_path_join walk_root [file]))
                       self fls)
                    dirs)))"

definition add_prefix_dirs :: "bookfs \<Rightarrow> pystr list \<Rightarrow> bookfs" where
  "add_prefix_dirs self path_components =
     foldl (\<lambda>s i. add_dir s (normpath (str ''/'' @ py_join (str ''/'') (take i path_components))))
       self [1 ..< length path_components + 1]"

definition book_body :: "world \<Rightarrow> bookfs \<Rightarrow> pystr \<Rightarrow> error + bookfs" where
  "book_body w self metadata_file =
     (case parse_metadata w metadata_file of
        Inl e \<Rightarrow> Inl e
      | Inr metadata \<Rightarrow>
          (case get_book_path w metadata of
             Inl e \<Rightarrow> Inl e
           | Inr virtual_book_path \<Rightarrow>
               for_each (walk_body w virtual_book_path (dirname metadata_file))
                 (add_prefix_dirs self (split_on 47 (strip_slash virtual_book_path)))
                 (os_walk w (dirname metadata_file))))"

definition build_file_structure :: "world \<Rightarrow> bookfs \<Rightarrow> error + bookfs" where
  "build_file_structure w self = for_each (book_body w) self (find_metadata_files w self)"

text \<open>\<open>BookFS(root_dir)\<close>: the constructor.\<close>

definition BookFS :: "world \<Rightarrow> pystr \<Rightarrow> error + bookfs" where
  "BookFS w rootdir =
     build_file_structure w \<lparr>root_dir = rootdir, files = Map.empty, directories = {}\<rparr>"

section \<open>Auxiliary notions and example inputs\<close>

text \<open>A word of \<open>split()\<close>: non-empty and free of whitespace.\<close>

definition is_word :: "pystr \<Rightarrow> bool" where
  "is_word w = (w \<noteq> [] \<and> list_all (\<lambda>c. \<not> py_isspace c) w)"

text \<open>A Unicode table that knows no alphanumeric character beyond Latin-1, for examples.\<close>

definition ucd_none :: "nat \<Rightarrow> bool" where
  "ucd_none c = False"

definition book_path_spec :: "world \<Rightarrow> metadata \<Rightarrow> pystr" where
  "book_path_spec w m =
     (let book = (if book_title m = [] then str ''Unknown Book'' else book_title m)
      in case series m of
           None \<Rightarrow> author m @ str ''/'' @ book
         | Some s \<Rightarrow>
             (case series_index m of
                None \<Rightarrow> author m @ str ''/'' @ s @ str ''/'' @ book
              | Some idx \<Rightarrow>
                  (case float_of_str w idx of
                     Some (Finite r) \<Rightarrow>
                       author m @ str ''/'' @ s @ str ''/'' @ str ''Book '' @ str_of_int (trunc r)
                   | _ \<Rightarrow> author m @ str ''/'' @ s @ str ''/'' @ book)))"

definition float_demo :: "pystr \<Rightarrow> pyfloat option" where
  "float_demo s =
     (if s = str ''2.0'' then Some (Finite 2)
      else if s = str ''inf'' then Some Infinite
      else if s = str ''nan'' then Some NaN
      else None)"

definition base_world :: world where
  "base_world =
     \<lparr>ucd_alnum = ucd_none, float_of_str = float_demo, et_parse = (\<lambda>p. ParseError),
      fs_root = Dir [], getcwd = str ''/'', getsize = (\<lambda>p. Inl OSError),
      file_bytes = (\<lambda>p. Inl OSError), max_offset = (\<lambda>p. 17592186040320), max_alloc = 4294967296,
      read_fault = (\<lambda>p pos sz. False)\<rparr>"

definition world_with_doc :: "opf_doc \<Rightarrow> world" where
  "world_with_doc d = base_world\<lparr>et_parse := (\<lambda>p. Parsed d)\<rparr>"

definition asimov_doc :: opf_doc where
  "asimov_doc = \<lparr>creator_elem = Some (Some (str ''Isaac  Asimov'')), title_elem = None,
     series_elem = None, series_index_elem = None\<rparr>"

definition blank_doc :: opf_doc where
  "blank_doc = \<lparr>creator_elem = Some (Some (str ''Ann'')), title_elem = Some (Some (str ''  '')),
     series_elem = None, series_index_elem = None\<rparr>"

definition foundation_md :: metadata where
  "foundation_md = \<lparr>author = str ''Isaac Asimov'', book_title = str ''Foundation and Empire'',
     series = Some (str ''Foundation''), series_index = Some (str ''2.0'')\<rparr>"

definition empty_series_md :: metadata where
  "empty_series_md = \<lparr>author = str ''A'', book_title = str ''T'',
     series = Some [], series_index = Some (str ''2.0'')\<rparr>"

definition hello_world :: world where
  "hello_world = base_world
     \<lparr>getsize := (\<lambda>p. if p = str ''/lib/1/b.txt'' then Inr 5 else Inl OSError),
      file_bytes := (\<lambda>p. if p = str ''/lib/1/b.txt'' then Inr [104, 101, 108, 108, 111] else Inl OSError)\<rparr>"

definition hello_index :: bookfs where
  "hello_index =
     \<lparr>root_dir = str ''/lib'',
      files = [str ''/A/T/b.txt'' \<mapsto> str ''/lib/1/b.txt'', str ''/A/T/gone.txt'' \<mapsto> str ''/lib/1/gone.txt''],
      directories = {str ''/A'', str ''/A/T''}\<rparr>"

text \<open>A path component: non-empty and without a slash; a name that a directory can hold.\<close>

definition plain :: "pystr \<Rightarrow> bool" where
  "plain c = (c \<noteq> [] \<and> 47 \<notin> set c)"

definition proper_name :: "pystr \<Rightarrow> bool" where
  "proper_name c = (plain c \<and> c \<noteq> str ''.'' \<and> c \<noteq> str ''..'')"

text \<open>The absolute path with the given components, and its part after the first component.\<close>

definition tailpath :: "pystr list \<Rightarrow> pystr" where
  "tailpath cs = concat (map (\<lambda>c. 47 # c) cs)"

definition abs_of :: "pystr list \<Rightarrow> pystr" where
  "abs_of cs = (if cs = [] then [47] else tailpath cs)"

definition normabs :: "pystr list \<Rightarrow> pystr list" where
  "normabs cs = foldl (norm_step 1) [] cs"

definition rel_of :: "pystr list \<Rightarrow> pystr" where
  "rel_of rs = (if rs = [] then str ''.'' else py_join [47] rs)"

text \<open>
  A well-formed tree: every entry name is one that a directory can hold, and no directory
  holds a name twice. A well-formed world also has an absolute working directory.
\<close>

fun wf_node :: "fsnode \<Rightarrow> bool" and wf_entries :: "(pystr \<times> fsnode) list \<Rightarrow> bool" where
  "wf_node File = True"
| "wf_node Unlisted = True"
| "wf_node (Dir entries) = (distinct (map fst entries) \<and> wf_entries entries)"
| "wf_entries [] = True"
| "wf_entries (e # es) = (proper_name (fst e) \<and> wf_node (snd e) \<and> wf_entries es)"

definition wf_world :: "world \<Rightarrow> bool" where
  "wf_world w = (starts_with_slash (getcwd w) \<and> wf_node (fs_root w))"

text \<open>The walk with each directory given by its names below the top instead of its path.\<close>

fun rel_walk_node :: "pystr list \<Rightarrow> fsnode \<Rightarrow> (pystr list \<times> pystr list \<times> pystr list) list"
  and rel_walk_entries :: "pystr list \<Rightarrow> (pystr \<times> fsnode) list \<Rightarrow> (pystr list \<times> pystr list \<times> pystr list) list"
where
  "rel_walk_node rs File = []"
| "rel_walk_node rs Unlisted = []"
| "rel_walk_node rs (Dir entries) = (rs, dir_names entries, file_names entries) # rel_walk_entries rs entries"
| "rel_walk_entries rs [] = []"
| "rel_walk_entries rs (e # es) = rel_walk_node (rs @ [fst e]) (snd e) @ rel_walk_entries rs es"

definition at_top :: "pystr \<Rightarrow> pystr list \<times> pystr list \<times> pystr list \<Rightarrow> pystr \<times> pystr list \<times> pystr list" where
  "at_top topdir t = (case t of (rs, ds, fs) \<Rightarrow> (os_path_join topdir rs, ds, fs))"

definition stack :: "pystr \<Rightarrow> pystr list" where
  "stack q = foldl (norm_step (initial_slashes q)) [] (split_on 47 q)"

definition abs_str :: "world \<Rightarrow> pystr \<Rightarrow> pystr" where
  "abs_str w p = (if starts_with_slash p then p else os_path_join (getcwd w) [p])"

text \<open>The parent of every entry of the index is the root or a registered directory.\<close>

definition index_closed :: "bookfs \<Rightarrow> bool" where
  "index_closed self =
     (\<forall>e \<in> dom (files self) \<union> directories self.
        dirname e = str ''/'' \<or> dirname e \<in> directories self)"

definition index_finite :: "bookfs \<Rightarrow> bool" where
  "index_finite self = (finite (dom (files self)) \<and> finite (directories self))"

text \<open>Every directory of a walk other than the top is listed by its parent.\<close>

definition parents_listed :: "(pystr list \<times> pystr list \<times> pystr list) list \<Rightarrow> bool" where
  "parents_listed ts =
     (\<forall>t \<in> set ts. fst t = [] \<or> (\<exists>p \<in> set ts. \<exists>d \<in> set (fst (snd p)). fst t = fst p @ [d]))"

definition rebased_dirs :: "pystr list \<Rightarrow> (pystr list \<times> pystr list \<times> pystr list) list \<Rightarrow> pystr set" where
  "rebased_dirs N ts = (\<Union>t \<in> set ts. (\<lambda>d. abs_of (N @ fst t @ [d])) ` set (fst (snd t)))"

definition rebased_files :: "pystr list \<Rightarrow> (pystr list \<times> pystr list \<times> pystr list) list \<Rightarrow> pystr set" where
  "rebased_files N ts = (\<Union>t \<in> set ts. (\<lambda>f. abs_of (N @ fst t @ [f])) ` set (snd (snd t)))"

definition all_proper :: "(pystr list \<times> pystr list \<times> pystr list) list \<Rightarrow> bool" where
  "all_proper ts =
     (\<forall>t \<in> set ts. list_all proper_name (fst t) \<and> list_all proper_name (fst (snd t)) \<and>
        list_all proper_name (snd (snd t)))"

definition prefix_dirs :: "pystr list \<Rightarrow> pystr set" where
  "prefix_dirs cs = (\<lambda>i. abs_of (normabs (take i cs))) ` {1..length cs}"

definition ann_doc :: opf_doc where
  "ann_doc = \<lparr>creator_elem = Some (Some (str ''Ann'')), title_elem = Some (Some (str ''T1'')),
     series_elem = None, series_index_elem = None\<rparr>"

definition bob_doc :: opf_doc where
  "bob_doc = \<lparr>creator_elem = Some (Some (str ''Bob'')), title_elem = Some (Some (str ''T2'')),
     series_elem = None, series_index_elem = None\<rparr>"

definition library_world :: world where
  "library_world = base_world
     \<lparr>et_parse := (\<lambda>p. if p = str ''/lib/1/metadata.opf'' then Parsed ann_doc
                        else if p = str ''/lib/2/metadata.opf'' then Parsed bob_doc
                        else ParseError),
      fs_root := Dir [(str ''lib'',
         Dir [(str ''1'', Dir [(str ''metadata.opf'', File), (str ''sub'', Dir [(str ''c.jpg'', File)])]),
              (str ''2'', Dir [(str ''metadata.opf'', File)])])]\<rparr>"

definition library_index :: bookfs where
  "library_index =
     \<lparr>root_dir = str ''/lib'',
      files = [str ''/Ann/T1/metadata.opf'' \<mapsto> str ''/lib/1/metadata.opf'',
               str ''/Ann/T1/sub/c.jpg'' \<mapsto> str ''/lib/1/sub/c.jpg'',
               str ''/Bob/T2/metadata.opf'' \<mapsto> str ''/lib/2/metadata.opf''],
      directories = {str ''/Bob/T2'', str ''/Bob'', str ''/Ann/T1/sub'', str ''/Ann/T1'', str ''/Ann''}\<rparr>"

definition plain_doc :: "string \<Rightarrow> string \<Rightarrow> opf_doc" where
  "plain_doc a t = \<lparr>creator_elem = Some (Some (str a)), title_elem = Some (Some (str t)),
     series_elem = None, series_index_elem = None\<rparr>"

definition series_doc :: "string \<Rightarrow> string \<Rightarrow> string \<Rightarrow> opf_doc" where
  "series_doc a s t = \<lparr>creator_elem = Some (Some (str a)), title_elem = Some (Some (str t)),
     series_elem = Some (Some (str s)), series_index_elem = None\<rparr>"

text \<open>
  Two books that collide: the first has the path \<open>A/T\<close> and holds a file named \<open>S\<close>,
  the second is in the series \<open>T\<close> with the title \<open>S\<close> and has the path \<open>A/T/S\<close>.
\<close>

definition collision_world :: world where
  "collision_world = base_world
     \<lparr>et_parse := (\<lambda>p. if p = str ''/lib/x/metadata.opf'' then Parsed (plain_doc ''A'' ''T'')
                        else if p = str ''/lib/y/metadata.opf'' then Parsed (series_doc ''A'' ''T'' ''S'')
                        else ParseError),
      fs_root := Dir [(str ''lib'',
         Dir [(str ''x'', Dir [(str ''metadata.opf'', File), (str ''S'', File)]),
              (str ''y'', Dir [(str ''metadata.opf'', File)])])],
      getsize := (\<lambda>p. if p = str ''/lib/x/S'' then Inr 3 else Inl OSError)\<rparr>"

definition collision_index :: bookfs where
  "collision_index =
     \<lparr>root_dir = str ''/lib'',
      files = [str ''/A/T/metadata.opf'' \<mapsto> str ''/lib/x/metadata.opf'',
               str ''/A/T/S'' \<mapsto> str ''/lib/x/S'',
               str ''/A/T/S/metadata.opf'' \<mapsto> str ''/lib/y/metadata.opf''],
      directories = {str ''/A/T/S'', str ''/A/T'', str ''/A''}\<rparr>"

text \<open>
  The pairs of virtual and real file path that one book registers, in the order of the
  walk of its directory; none when its descriptor or its path raises.
\<close>

definition walk_files :: "world \<Rightarrow> pystr \<Rightarrow> pystr \<Rightarrow> pystr \<times> pystr list \<times> pystr list \<Rightarrow> (pystr \<times> pystr) list" where
  "walk_files w virtual_book_path book_dir triple =
     (case triple of (walk_root, dirs, fls) \<Rightarrow>
        (case relpath w walk_root book_dir of
           Inl e \<Rightarrow> []
         | Inr rel_root \<Rightarrow>
             map (\<lambda>file. (rebase virtual_book_path rel_root file, os_path_join walk_root [file])) fls))"

definition book_files :: "world \<Rightarrow> pystr \<Rightarrow> (pystr \<times> pystr) list" where
  "book_files w metadata_file =
     (case parse_metadata w metadata_file of
        Inl e \<Rightarrow> []
      | Inr metadata \<Rightarrow>
          (case get_book_path w metadata of
             Inl e \<Rightarrow> []
           | Inr virtual_book_path \<Rightarrow>
               concat (map (walk_files w virtual_book_path (dirname metadata_file))
                 (os_walk w (dirname metadata_file)))))"

definition store :: "(pystr \<rightharpoonup> pystr) \<Rightarrow> (pystr \<times> pystr) list \<Rightarrow> (pystr \<rightharpoonup> pystr)" where
  "store m kvs = foldl (\<lambda>m kv. m(fst kv \<mapsto> snd kv)) m kvs"

definition full_path :: "world \<Rightarrow> pystr \<Rightarrow> pystr" where
  "full_path w path = (if starts_with_slash path then path else getcwd w @ [47] @ path)"

text \<open>Two books with the same author and title.\<close>

definition twin_world :: world where
  "twin_world = base_world
     \<lparr>et_parse := (\<lambda>p. if p = str ''/lib/1/metadata.opf'' then Parsed (plain_doc ''A'' ''T'')
                        else if p = str ''/lib/2/metadata.opf'' then Parsed (plain_doc ''A'' ''T'')
                        else ParseError),
      fs_root := Dir [(str ''lib'',
         Dir [(str ''1'', Dir [(str ''metadata.opf'', File)]),
              (str ''2'', Dir [(str ''metadata.opf'', File)])])]\<rparr>"

definition twin_index :: bookfs where
  "twin_index =
     \<lparr>root_dir = str ''/lib'',
      files = [str ''/A/T/metadata.opf'' \<mapsto> str ''/lib/2/metadata.opf''],
      directories = {str ''/A/T'', str ''/A''}\<rparr>"

text \<open>A book whose author is a single period.\<close>

definition dot_world :: world where
  "dot_world = base_world
     \<lparr>et_parse := (\<lambda>p. if p = str ''/lib/1/metadata.opf'' then Parsed (plain_doc ''.'' ''T'')
                        else ParseError),
      fs_root := Dir [(str ''lib'', Dir [(str ''1'', Dir [(str ''metadata.opf'', File)])])]\<rparr>"

definition dot_index :: bookfs where
  "dot_index =
     \<lparr>root_dir = str ''/lib'',
      files = [str ''/T/metadata.opf'' \<mapsto> str ''/lib/1/metadata.opf''],
      directories = {str ''/T'', str ''/''}\<rparr>"

section \<open>Whitespace splitting and joining\<close>

lemma py_split_dropWhile: "py_split (dropWhile py_isspace s) = py_split s"
  by (subst py_split.simps, subst (2) py_split.simps) (simp add: dropWhile_idem)

lemma py_split_Nil [simp]: "py_split [] = []"
  by (simp add: py_split.simps)

lemma py_split_space_Cons: "py_isspace c \<Longrightarrow> py_split (c # cs) = py_split cs"
  using py_split_dropWhile [of "c # cs"] py_split_dropWhile [of cs] by simp

lemma py_split_word:
  assumes "\<not> py_isspace c"
  shows "py_split (c # cs) =
    (c # takeWhile (\<lambda>c. \<not> py_isspace c) cs) # py_split (dropWhile (\<lambda>c. \<not> py_isspace c) cs)"
  using assms by (subst py_split.simps) simp

lemma py_split_words: "list_all is_word (py_split s)"
proof (induction s rule: py_split.induct)
  case (1 s)
  show ?case
  proof (cases "dropWhile py_isspace s = []")
    case True
    then show ?thesis by (simp add: py_split.simps)
  next
    case False
    then obtain c cs where eq: "dropWhile py_isspace s = c # cs"
      by (cases "dropWhile py_isspace s") auto
    have nsp: "\<not> py_isspace c" using hd_dropWhile [OF False] eq by simp
    have "is_word (takeWhile (\<lambda>c. \<not> py_isspace c) (c # cs))"
      using nsp by (auto simp: is_word_def list_all_iff dest: set_takeWhileD)
    moreover have "list_all is_word (py_split (dropWhile (\<lambda>c. \<not> py_isspace c) (dropWhile py_isspace s)))"
      using 1 False by simp
    ultimately show ?thesis
      using False eq by (subst py_split.simps) simp
  qed
qed

lemma py_split_subset: "set (concat (py_split s)) \<subseteq> set s"
proof (induction s rule: py_split.induct)
  case (1 s)
  show ?case
  proof (cases "dropWhile py_isspace s = []")
    case True
    then show ?thesis by (simp add: py_split.simps)
  next
    case False
    have a: "set (takeWhile (\<lambda>c. \<not> py_isspace c) (dropWhile py_isspace s)) \<subseteq> set s"
      by (meson set_takeWhileD set_dropWhileD subsetI)
    have "set (concat (py_split (dropWhile (\<lambda>c. \<not> py_isspace c) (dropWhile py_isspace s))))
        \<subseteq> set (dropWhile (\<lambda>c. \<not> py_isspace c) (dropWhile py_isspace s))"
      using 1 False by simp
    then have b: "set (concat (py_split (dropWhile (\<lambda>c. \<not> py_isspace c) (dropWhile py_isspace s)))) \<subseteq> set s"
      by (meson set_dropWhileD subsetD subsetI)
    show ?thesis
      using False a b by (subst py_split.simps) simp
  qed
qed

lemma py_join_Cons: "ws \<noteq> [] \<Longrightarrow> py_join sep (w # ws) = w @ sep @ py_join sep ws"
  by (cases ws) auto

lemma py_split_join:
  "list_all is_word ws \<Longrightarrow> py_split (py_join [32] ws) = ws"
proof (induction ws)
  case Nil
  then show ?case by simp
next
  case (Cons w ws)
  then obtain c cs where w: "w = c # cs" and nsp: "\<not> py_isspace c" and all: "list_all (\<lambda>c. \<not> py_isspace c) cs"
    by (cases w) (auto simp: is_word_def)
  have sp: "py_isspace 32" by (simp add: py_isspace_def)
  show ?case
  proof (cases ws)
    case Nil
    have "takeWhile (\<lambda>c. \<not> py_isspace c) cs = cs" "dropWhile (\<lambda>c. \<not> py_isspace c) cs = []"
      using all by (auto simp: list_all_iff)
    then show ?thesis unfolding Nil w by (simp only: py_join.simps py_split_word [OF nsp] py_split_Nil)
  next
    case (Cons v vs)
    have t: "takeWhile (\<lambda>c. \<not> py_isspace c) (cs @ 32 # py_join [32] (v # vs)) = cs"
      using all sp by (simp add: takeWhile_append2 list_all_iff takeWhile_append1)
    have d: "dropWhile (\<lambda>c. \<not> py_isspace c) (cs @ 32 # py_join [32] (v # vs)) = 32 # py_join [32] (v # vs)"
      using all sp by (simp add: dropWhile_append2 list_all_iff)
    have "py_split (py_join [32] (v # vs)) = v # vs"
      using Cons.IH Cons.prems Cons by simp
    then show ?thesis
      unfolding Cons w
      by (simp only: py_join.simps append_Cons append_Nil py_split_word [OF nsp] t d
            py_split_space_Cons [OF sp])
  qed
qed


lemma py_strip_Nil [simp]: "py_strip [] = []"
  by (simp add: py_strip_def)

lemma py_strip_subset: "set (py_strip s) \<subseteq> set s"
  unfolding py_strip_def by (auto dest!: set_dropWhileD)

lemma py_strip_last: "py_strip s \<noteq> [] \<Longrightarrow> \<not> py_isspace (last (py_strip s))"
  unfolding py_strip_def
  by (simp add: last_rev hd_dropWhile)

lemma py_strip_hd:
  assumes "py_strip s \<noteq> []"
  shows "\<not> py_isspace (hd (py_strip s))"
proof -
  define y where "y = dropWhile py_isspace s"
  have ne: "dropWhile py_isspace (rev y) \<noteq> []"
    using assms by (simp add: py_strip_def y_def)
  have "rev y = takeWhile py_isspace (rev y) @ dropWhile py_isspace (rev y)"
    by simp
  then have "y = rev (dropWhile py_isspace (rev y)) @ rev (takeWhile py_isspace (rev y))"
    by (metis rev_append rev_rev_ident)
  then have y: "y = py_strip s @ rev (takeWhile py_isspace (rev y))"
    by (simp add: py_strip_def y_def)
  then have "y \<noteq> []" using assms by auto
  then have "\<not> py_isspace (hd y)"
    unfolding y_def by (rule hd_dropWhile)
  moreover have "hd y = hd (py_strip s)"
    using y assms by (metis hd_append2)
  ultimately show ?thesis by simp
qed

lemma py_strip_fixed:
  assumes "s \<noteq> []" "\<not> py_isspace (hd s)" "\<not> py_isspace (last s)"
  shows "py_strip s = s"
proof -
  have a: "dropWhile py_isspace s = s"
    using assms by (cases s) auto
  have "rev s \<noteq> []" "\<not> py_isspace (hd (rev s))"
    using assms by (simp_all add: hd_rev)
  then have b: "dropWhile py_isspace (rev s) = rev s"
    by (cases "rev s") auto
  show ?thesis by (simp add: py_strip_def a b)
qed

lemma py_join_set: "set (py_join sep ws) \<subseteq> set sep \<union> set (concat ws)"
  by (induction sep ws rule: py_join.induct) auto

lemma py_join_Nil_iff: "list_all is_word ws \<Longrightarrow> (py_join sep ws = []) = (ws = [])"
  by (induction sep ws rule: py_join.induct) (auto simp: is_word_def)

lemma py_join_hd: "list_all is_word ws \<Longrightarrow> ws \<noteq> [] \<Longrightarrow> hd (py_join sep ws) = hd (hd ws)"
  by (induction sep ws rule: py_join.induct) (auto simp: is_word_def)

lemma py_join_last: "list_all is_word ws \<Longrightarrow> ws \<noteq> [] \<Longrightarrow> last (py_join sep ws) = last (last ws)"
proof (induction sep ws rule: py_join.induct)
  case (3 sep w v ws)
  have "py_join sep (v # ws) \<noteq> []"
    using 3 by (simp add: py_join_Nil_iff)
  then show ?case using 3 by simp
qed auto

lemma py_strip_join:
  assumes "list_all is_word ws"
  shows "py_strip (py_join sep ws) = py_join sep ws"
proof (cases ws)
  case Nil
  then show ?thesis by simp
next
  case (Cons v vs)
  have ne: "py_join sep ws \<noteq> []"
    using assms Cons by (simp add: py_join_Nil_iff)
  have "is_word (hd ws)" "is_word (last ws)"
    using assms Cons by (auto simp: list_all_iff)
  then have "\<not> py_isspace (hd (hd ws))" "\<not> py_isspace (last (last ws))"
    by (auto simp: is_word_def list_all_iff)
  then show ?thesis
    using ne assms Cons by (intro py_strip_fixed) (simp_all add: py_join_hd py_join_last)
qed

lemma sanitize_char_idem: "sanitize_char ucd (sanitize_char ucd c) = sanitize_char ucd c"
  by (simp add: sanitize_char_def safe_chars_def str_def)

lemma sanitize_char_space: "sanitize_char ucd 32 = 32"
  by (simp add: sanitize_char_def safe_chars_def str_def)

lemma sanitize_name_idem: "sanitize_name ucd (sanitize_name ucd x) = sanitize_name ucd x"
proof -
  define ws where "ws = py_split (py_strip (map (sanitize_char ucd) x))"
  have words: "list_all is_word ws"
    unfolding ws_def by (rule py_split_words)
  have S: "sanitize_name ucd x = py_join [32] ws"
    by (simp add: sanitize_name_def ws_def str_def)
  have "set (concat ws) \<subseteq> set (map (sanitize_char ucd) x)"
    unfolding ws_def using py_split_subset py_strip_subset by blast
  then have sub: "set (py_join [32] ws) \<subseteq> insert 32 (sanitize_char ucd ` set x)"
    using py_join_set [of "[32]" ws] by (simp add: subset_iff) blast
  have "\<forall>c \<in> set (py_join [32] ws). sanitize_char ucd c = c"
  proof
    fix c assume "c \<in> set (py_join [32] ws)"
    then have "c = 32 \<or> c \<in> sanitize_char ucd ` set x" using sub by blast
    then show "sanitize_char ucd c = c"
      by (auto simp: sanitize_char_idem sanitize_char_space)
  qed
  then have m: "map (sanitize_char ucd) (py_join [32] ws) = py_join [32] ws"
    by (simp add: map_idI)
  have "sanitize_name ucd (py_join [32] ws) = py_join [32] (py_split (py_strip (py_join [32] ws)))"
    by (simp add: sanitize_name_def m str_def)
  also have "\<dots> = py_join [32] ws"
    by (simp add: py_strip_join [OF words] py_split_join [OF words])
  finally show ?thesis by (simp add: S)
qed

lemma collapse_ws_word:
  "list_all (\<lambda>c. \<not> py_isspace c) w \<Longrightarrow> collapse_ws (w @ r) = w @ collapse_ws r"
proof (induction w)
  case Nil
  then show ?case by simp
next
  case (Cons c w)
  then show ?case by (cases "w @ r") auto
qed

lemma collapse_ws_spaces:
  "sps \<noteq> [] \<Longrightarrow> list_all py_isspace sps \<Longrightarrow> r \<noteq> [] \<Longrightarrow> \<not> py_isspace (hd r) \<Longrightarrow>
     collapse_ws (sps @ r) = 32 # collapse_ws r"
proof (induction sps)
  case Nil
  then show ?case by simp
next
  case (Cons c sps)
  show ?case
  proof (cases sps)
    case Nil
    then show ?thesis using Cons.prems by (cases r) auto
  next
    case (Cons d ds)
    then show ?thesis using Cons.IH Cons.prems by auto
  qed
qed

lemma join_split_collapse:
  "s = [] \<or> \<not> py_isspace (last s) \<Longrightarrow>
     py_join [32] (py_split s) = collapse_ws (dropWhile py_isspace s)"
proof (induction s rule: py_split.induct)
  case (1 s)
  define s' where "s' = dropWhile py_isspace s"
  define w where "w = takeWhile (\<lambda>c. \<not> py_isspace c) s'"
  define r where "r = dropWhile (\<lambda>c. \<not> py_isspace c) s'"
  define sps where "sps = takeWhile py_isspace r"
  define r' where "r' = dropWhile py_isspace r"
  have s_eq: "s = takeWhile py_isspace s @ s'" by (simp add: s'_def)
  have s'_eq: "s' = w @ r" by (simp add: w_def r_def)
  have r_eq: "r = sps @ r'" by (simp add: sps_def r'_def)
  have wns: "list_all (\<lambda>c. \<not> py_isspace c) w"
    by (auto simp: w_def list_all_iff dest: set_takeWhileD)
  have spsall: "list_all py_isspace sps"
    by (auto simp: sps_def list_all_iff dest: set_takeWhileD)
  show ?case
  proof (cases "s' = []")
    case True
    have "py_split s = []"
      by (subst py_split.simps) (simp add: True [unfolded s'_def])
    then show ?thesis using True by (simp add: s'_def [symmetric])
  next
    case False
    have split: "py_split s = w # py_split r"
      using False unfolding s'_def w_def r_def by (subst py_split.simps) simp
    show ?thesis
    proof (cases "r = []")
      case True
      have "collapse_ws s' = w"
        using collapse_ws_word [OF wns, of "[]"] s'_eq True by simp
      moreover have "py_join [32] (py_split s) = w"
        by (simp add: split True)
      ultimately show ?thesis by (simp add: s'_def [symmetric])
    next
      case rne: False
      have "last s = last s'" using s_eq False by (metis last_appendR)
      also have "\<dots> = last r" using s'_eq rne by (metis last_appendR)
      finally have lasts: "last s = last r" .
      have "s \<noteq> []" using False s'_def by auto
      then have nl: "\<not> py_isspace (last r)"
        using "1.prems" lasts by auto
      have IH: "py_join [32] (py_split r) = collapse_ws r'"
        using "1.IH" [OF False [unfolded s'_def]] nl
        unfolding r_def [symmetric, unfolded s'_def] r'_def by blast
      have "\<not> \<not> py_isspace (hd r)"
        using hd_dropWhile [of "\<lambda>c. \<not> py_isspace c" s'] rne unfolding r_def by blast
      then have hdr: "py_isspace (hd r)" by simp
      have spne: "sps \<noteq> []"
        using hdr rne unfolding sps_def by (cases r) auto
      have r'ne: "r' \<noteq> []"
      proof
        assume "r' = []"
        then have "r = sps" using r_eq by simp
        then have "py_isspace (last r)"
          using spsall spne by (metis last_in_set list_all_iff)
        then show False using nl by simp
      qed
      have hdr': "\<not> py_isspace (hd r')"
        using hd_dropWhile [of py_isspace r] r'ne unfolding r'_def by blast
      have "py_split r \<noteq> []"
        using r'ne unfolding r'_def by (subst py_split.simps) simp
      then have j: "py_join [32] (py_split s) = w @ 32 # py_join [32] (py_split r)"
        by (simp add: split py_join_Cons)
      have "collapse_ws s' = w @ collapse_ws r"
        using collapse_ws_word [OF wns, of r] s'_eq by simp
      also have "collapse_ws r = 32 # collapse_ws r'"
        using collapse_ws_spaces [OF spne spsall r'ne hdr'] r_eq by simp
      finally show ?thesis using j IH by (simp add: s'_def [symmetric])
    qed
  qed
qed

lemma join_split_strip: "py_join [32] (py_split (py_strip s)) = collapse_ws (py_strip s)"
proof (cases "py_strip s = []")
  case True
  then show ?thesis by simp
next
  case False
  have "dropWhile py_isspace (py_strip s) = py_strip s"
    using py_strip_hd [OF False] False by (cases "py_strip s") auto
  then show ?thesis
    using join_split_collapse [of "py_strip s"] py_strip_last [OF False] by simp
qed

lemma safe_chars_set: "c \<in> set safe_chars \<longleftrightarrow> (c = 45 \<or> c = 95 \<or> c = 46 \<or> c = 40 \<or> c = 41 \<or> c = 32)"
  by (simp add: safe_chars_def str_def)

lemma ascii_alnum_lt: "ascii_alnum c \<Longrightarrow> c < 128"
  by (simp add: ascii_alnum_def) arith

lemma py_isalnum_split: "py_isalnum ucd c \<longleftrightarrow> (ascii_alnum c \<or> (128 \<le> c \<and> py_isalnum ucd c))"
  using ascii_alnum_lt [of c] by (cases "c < 128") (auto simp: py_isalnum_def)

lemma sanitize_char_class:
  "sanitize_char ucd c = (if spec_class c \<or> (128 \<le> c \<and> py_isalnum ucd c) then c else 95)"
proof -
  have "(py_isalnum ucd c \<or> c \<in> set safe_chars) \<longleftrightarrow> (spec_class c \<or> (128 \<le> c \<and> py_isalnum ucd c))"
    unfolding safe_chars_set spec_class_def using py_isalnum_split [of ucd c] by blast
  then show ?thesis by (simp only: sanitize_char_def)
qed


section \<open>Sanitisation (claims C7 and C8)\<close>

text \<open>
  Claim C7, as stated: \<open>sanitize\<close> keeps exactly the characters of the class
  \<open>[A-Za-z0-9\-_.() ]\<close> and replaces every other character with an underscore. This
  fails for a non-ASCII letter: \<open>str.isalnum\<close> accepts the code point 233 (e with acute
  accent), so \<open>sanitize_name\<close> keeps it where the class replaces it.
\<close>

theorem sanitize_class_counterexample:
  "sanitize_name ucd_none [233] = [233] \<and> sanitize_spec [233] = [95]"
  by (simp add: sanitize_name_def sanitize_char_def py_isalnum_def latin1_alnum_def
      safe_chars_def str_def py_strip_def py_isspace_def py_split.simps
      sanitize_spec_def sanitize_by_class_def spec_class_def ascii_alnum_def)

text \<open>
  Claim C7, amended: for every input string, \<open>sanitize\<close> keeps exactly the characters
  of the class \<open>[A-Za-z0-9\-_.() ]\<close> and the non-ASCII characters that \<open>str.isalnum\<close>
  accepts, replaces every other character with an underscore, trims leading and trailing
  whitespace and collapses each run of whitespace to one space.
\<close>

theorem sanitize_name_keeps_alnum:
  "sanitize_name ucd name =
     sanitize_by_class (\<lambda>c. spec_class c \<or> (128 \<le> c \<and> py_isalnum ucd c)) name"
proof -
  have e: "sanitize_char ucd =
      (\<lambda>c. if spec_class c \<or> (128 \<le> c \<and> py_isalnum ucd c) then c else 95)"
    by (rule ext) (rule sanitize_char_class)
  have "str '' '' = [32]" by (simp add: str_def)
  then have "sanitize_name ucd name = collapse_ws (py_strip (map (sanitize_char ucd) name))"
    by (simp only: sanitize_name_def join_split_strip)
  then show ?thesis
    by (simp only: sanitize_by_class_def e)
qed

theorem sanitize_name_keeps_alnum_witness:
  "sanitize_name ucd_none (str ''  Isaac   Asimov: a/b '') = str ''Isaac Asimov_ a_b''"
  using sanitize_name_keeps_alnum [of ucd_none "str ''  Isaac   Asimov: a/b ''"]
  by (simp add: sanitize_by_class_def spec_class_def ascii_alnum_def py_isalnum_def
      ucd_none_def str_def py_strip_def py_isspace_def)

text \<open>
  Claim C8: \<open>sanitize\<close> is idempotent: for every input string \<open>x\<close>,
  \<open>sanitize(sanitize(x))\<close> equals \<open>sanitize(x)\<close>.
\<close>

theorem sanitize_name_idempotent:
  "sanitize_name ucd (sanitize_name ucd x) = sanitize_name ucd x"
  by (rule sanitize_name_idem)

theorem sanitize_name_idempotent_witness:
  "sanitize_name ucd_none (sanitize_name ucd_none (str '' a  b/c '')) = str ''a b_c''"
proof -
  have "sanitize_name ucd_none (str '' a  b/c '') = str ''a b_c''"
    by (simp add: sanitize_name_def sanitize_char_def py_isalnum_def ascii_alnum_def
        ucd_none_def safe_chars_def str_def py_strip_def py_isspace_def py_split.simps)
  then show ?thesis
    using sanitize_name_idempotent [of ucd_none "str '' a  b/c ''"] by simp
qed

section \<open>Mutating operations (claim C5)\<close>

text \<open>
  Claim C5: every call to \<open>create\<close>, \<open>write\<close>, \<open>mkdir\<close>, \<open>rmdir\<close> and
  \<open>unlink\<close>, for every path and arguments, fails with \<open>AccessDenied\<close> and leaves the
  index (the files mapping and the directories set) unchanged.
\<close>

theorem mutations_denied:
  "fst (create self path mode) = Inl AccessDenied \<and>
   fst (write_op self path data offset) = Inl AccessDenied \<and>
   fst (mkdir self path mode) = Inl AccessDenied \<and>
   fst (rmdir self path) = Inl AccessDenied \<and>
   fst (unlink self path) = Inl AccessDenied \<and>
   snd (create self path mode) = self \<and>
   snd (write_op self path data offset) = self \<and>
   snd (mkdir self path mode) = self \<and>
   snd (rmdir self path) = self \<and>
   snd (unlink self path) = self"
  by (simp add: create_def write_op_def mkdir_def rmdir_def unlink_def)

section \<open>Metadata parser (claim C1)\<close>

lemma py_strip_eq_Nil: "py_strip s = [] \<longleftrightarrow> (\<forall>c \<in> set s. py_isspace c)"
proof -
  have "py_strip s = [] \<longleftrightarrow> (\<forall>c \<in> set (dropWhile py_isspace s). py_isspace c)"
    by (simp add: py_strip_def)
  also have "\<dots> \<longleftrightarrow> dropWhile py_isspace s = []"
  proof
    assume a: "\<forall>c \<in> set (dropWhile py_isspace s). py_isspace c"
    show "dropWhile py_isspace s = []"
    proof (rule ccontr)
      assume ne: "dropWhile py_isspace s \<noteq> []"
      then have "hd (dropWhile py_isspace s) \<in> set (dropWhile py_isspace s)" by simp
      then show False using a hd_dropWhile [OF ne] by blast
    qed
  next
    assume "dropWhile py_isspace s = []"
    then show "\<forall>c \<in> set (dropWhile py_isspace s). py_isspace c" by (simp only: list.set ball_empty)
  qed
  also have "\<dots> \<longleftrightarrow> (\<forall>c \<in> set s. py_isspace c)" by simp
  finally show ?thesis .
qed

lemma collapse_ws_eq_Nil: "collapse_ws s = [] \<longleftrightarrow> s = []"
  by (induction s rule: collapse_ws.induct) auto

lemma sanitize_name_collapse:
  "sanitize_name ucd name = collapse_ws (py_strip (map (sanitize_char ucd) name))"
proof -
  have "str '' '' = [32]" by (simp add: str_def)
  then show ?thesis by (simp only: sanitize_name_def join_split_strip)
qed

lemma sanitize_char_isspace:
  "py_isspace (sanitize_char ucd c) \<longleftrightarrow> c = 32 \<or> (py_isspace c \<and> py_isalnum ucd c)"
proof (cases "py_isalnum ucd c \<or> c \<in> set safe_chars")
  case True
  moreover have "c \<in> set safe_chars \<and> py_isspace c \<longleftrightarrow> c = 32"
    by (auto simp: safe_chars_def str_def py_isspace_def)
  ultimately show ?thesis by (auto simp: sanitize_char_def)
next
  case False
  moreover have "32 \<in> set safe_chars" by (simp add: safe_chars_def str_def)
  moreover have "\<not> py_isspace 95" by (simp add: py_isspace_def)
  ultimately show ?thesis by (auto simp: sanitize_char_def)
qed

lemma sanitize_name_eq_Nil:
  "sanitize_name ucd t = [] \<longleftrightarrow> (\<forall>c \<in> set t. c = 32 \<or> (py_isspace c \<and> py_isalnum ucd c))"
proof -
  have "sanitize_name ucd t = [] \<longleftrightarrow> py_strip (map (sanitize_char ucd) t) = []"
    by (simp only: sanitize_name_collapse collapse_ws_eq_Nil)
  also have "\<dots> \<longleftrightarrow> (\<forall>c \<in> set t. py_isspace (sanitize_char ucd c))"
    by (simp add: py_strip_eq_Nil)
  also have "\<dots> \<longleftrightarrow> (\<forall>c \<in> set t. c = 32 \<or> (py_isspace c \<and> py_isalnum ucd c))"
    by (simp only: sanitize_char_isspace)
  finally show ?thesis .
qed

lemma no_latin1_space_alnum: "c < 256 \<Longrightarrow> \<not> (py_isspace c \<and> py_isalnum ucd c)"
  by (auto simp: py_isspace_def py_isalnum_def ascii_alnum_def latin1_alnum_def)

lemma sanitize_fixed:
  assumes "list_all spec_class t" "t \<noteq> []" "\<not> py_isspace (hd t)" "\<not> py_isspace (last t)"
    and "collapse_ws t = t"
  shows "sanitize_name ucd t = t"
proof -
  have "map (sanitize_char ucd) t = t"
    using assms(1) by (intro map_idI) (simp add: sanitize_char_class list_all_iff)
  then show ?thesis
    using assms by (simp add: sanitize_name_collapse py_strip_fixed)
qed

lemma sanitize_unknown_author: "sanitize_name ucd (str ''Unknown Author'') = str ''Unknown Author''"
  by (rule sanitize_fixed) (simp_all add: str_def spec_class_def ascii_alnum_def py_isspace_def)

lemma sanitize_unknown_title: "sanitize_name ucd (str ''Unknown Title'') = str ''Unknown Title''"
  by (rule sanitize_fixed) (simp_all add: str_def spec_class_def ascii_alnum_def py_isspace_def)

text \<open>
  Claim C1, amended: for every descriptor on which \<open>ET.parse\<close> returns a tree or
  raises \<open>ET.ParseError\<close>, and whose creator and title elements have a text where they
  are present, \<open>parse_metadata\<close> returns a record. A descriptor that is not well-formed
  markup gives the all-default record (fallback author and title, no series, no series
  index). Otherwise an absent creator or title element gives the fallback literal, and a
  present one gives its sanitised text, which is empty exactly when every character of the
  text is a space (U+0020) or a whitespace character that \<open>str.isalnum\<close> accepts.
\<close>

theorem parse_metadata_amended:
  assumes "et_parse w p = ParseError \<or>
           (\<exists>doc. et_parse w p = Parsed doc \<and> creator_elem doc \<noteq> Some None \<and> title_elem doc \<noteq> Some None)"
  shows "\<exists>m. parse_metadata w p = Inr m \<and>
           (et_parse w p = ParseError \<longrightarrow>
              m = \<lparr>author = str ''Unknown Author'', book_title = str ''Unknown Title'',
                   series = None, series_index = None\<rparr>) \<and>
           (\<forall>doc. et_parse w p = Parsed doc \<longrightarrow>
              (creator_elem doc = None \<longrightarrow> author m = str ''Unknown Author'') \<and>
              (title_elem doc = None \<longrightarrow> book_title m = str ''Unknown Title'') \<and>
              (\<forall>t. creator_elem doc = Some (Some t) \<longrightarrow>
                 author m = sanitize_name (ucd_alnum w) t \<and>
                 (author m = [] \<longleftrightarrow>
                    (\<forall>c \<in> set t. c = 32 \<or> (py_isspace c \<and> py_isalnum (ucd_alnum w) c)))) \<and>
              (\<forall>t. title_elem doc = Some (Some t) \<longrightarrow>
                 book_title m = sanitize_name (ucd_alnum w) t \<and>
                 (book_title m = [] \<longleftrightarrow>
                    (\<forall>c \<in> set t. c = 32 \<or> (py_isspace c \<and> py_isalnum (ucd_alnum w) c)))))"
  using assms
proof
  assume "et_parse w p = ParseError"
  then show ?thesis by (simp add: parse_metadata_def default_metadata_def)
next
  assume "\<exists>doc. et_parse w p = Parsed doc \<and> creator_elem doc \<noteq> Some None \<and> title_elem doc \<noteq> Some None"
  then obtain doc where d: "et_parse w p = Parsed doc"
    and c: "creator_elem doc \<noteq> Some None" and t: "title_elem doc \<noteq> Some None" by blast
  obtain a where a: "text_or (creator_elem doc) (str ''Unknown Author'') = Some a"
    using c by (cases "creator_elem doc") (auto simp: text_or_def)
  obtain b where b: "text_or (title_elem doc) (str ''Unknown Title'') = Some b"
    using t by (cases "title_elem doc") (auto simp: text_or_def)
  have av: "creator_elem doc = None \<Longrightarrow> a = str ''Unknown Author''"
    and bv: "title_elem doc = None \<Longrightarrow> b = str ''Unknown Title''"
    and at: "\<And>x. creator_elem doc = Some (Some x) \<Longrightarrow> a = x"
    and bt: "\<And>x. title_elem doc = Some (Some x) \<Longrightarrow> b = x"
    using a b by (auto simp: text_or_def)
  define m where "m = \<lparr>author = sanitize_name (ucd_alnum w) a, book_title = sanitize_name (ucd_alnum w) b,
     series = (if truthy (content_of (series_elem doc))
               then map_option (sanitize_name (ucd_alnum w)) (content_of (series_elem doc))
               else content_of (series_elem doc)),
     series_index = content_of (series_index_elem doc)\<rparr>"
  have pm: "parse_metadata w p = Inr m"
    by (simp add: parse_metadata_def d a b sanitize_opt_def m_def)
  have am: "author m = sanitize_name (ucd_alnum w) a" and bm: "book_title m = sanitize_name (ucd_alnum w) b"
    by (simp_all add: m_def)
  have c1: "creator_elem doc = None \<longrightarrow> author m = str ''Unknown Author''"
    using am av sanitize_unknown_author by simp
  have c2: "title_elem doc = None \<longrightarrow> book_title m = str ''Unknown Title''"
    using bm bv sanitize_unknown_title by simp
  have c3: "\<forall>x. creator_elem doc = Some (Some x) \<longrightarrow>
      author m = sanitize_name (ucd_alnum w) x \<and>
      (author m = [] \<longleftrightarrow> (\<forall>c \<in> set x. c = 32 \<or> (py_isspace c \<and> py_isalnum (ucd_alnum w) c)))"
    using am at sanitize_name_eq_Nil [of "ucd_alnum w"] by simp
  have c4: "\<forall>x. title_elem doc = Some (Some x) \<longrightarrow>
      book_title m = sanitize_name (ucd_alnum w) x \<and>
      (book_title m = [] \<longleftrightarrow> (\<forall>c \<in> set x. c = 32 \<or> (py_isspace c \<and> py_isalnum (ucd_alnum w) c)))"
    using bm bt sanitize_name_eq_Nil [of "ucd_alnum w"] by simp
  show ?thesis
    using pm d c1 c2 c3 c4 by (intro exI [of _ m]) (simp add: sanitize_name_eq_Nil)
qed

theorem parse_metadata_amended_witness:
  "et_parse (world_with_doc asimov_doc) (str ''/lib/1/metadata.opf'') = Parsed asimov_doc \<and>
   creator_elem asimov_doc \<noteq> Some None \<and> title_elem asimov_doc \<noteq> Some None \<and>
   parse_metadata (world_with_doc asimov_doc) (str ''/lib/1/metadata.opf'') =
     Inr \<lparr>author = str ''Isaac Asimov'', book_title = str ''Unknown Title'',
          series = None, series_index = None\<rparr>"
proof -
  have e: "et_parse (world_with_doc asimov_doc) (str ''/lib/1/metadata.opf'') = Parsed asimov_doc"
    by (simp add: world_with_doc_def)
  have c: "creator_elem asimov_doc \<noteq> Some None" "title_elem asimov_doc \<noteq> Some None"
    by (simp_all add: asimov_doc_def)
  have s: "sanitize_name ucd_none (str ''Isaac  Asimov'') = str ''Isaac Asimov''"
    by (simp add: sanitize_name_def sanitize_char_def py_isalnum_def ascii_alnum_def
        ucd_none_def safe_chars_def str_def py_strip_def py_isspace_def py_split.simps)
  have u: "ucd_alnum (world_with_doc asimov_doc) = ucd_none"
    by (simp add: world_with_doc_def base_world_def)
  obtain m where m: "parse_metadata (world_with_doc asimov_doc) (str ''/lib/1/metadata.opf'') = Inr m"
    and a: "author m = str ''Isaac Asimov''" and t: "book_title m = str ''Unknown Title''"
    using parse_metadata_amended [of "world_with_doc asimov_doc" "str ''/lib/1/metadata.opf''"] e c s u
    by (auto simp: asimov_doc_def)
  have "series m = None" "series_index m = None"
    using m by (auto simp: parse_metadata_def world_with_doc_def sanitize_opt_def text_or_def
        asimov_doc_def content_of_def truthy_def)
  then have "m = \<lparr>author = str ''Isaac Asimov'', book_title = str ''Unknown Title'',
          series = None, series_index = None\<rparr>"
    using a t by (cases m) simp
  then show ?thesis using e c m by simp
qed

text \<open>
  Claim C1, as stated: the title of the returned record is never empty. A title element
  whose text is two spaces is sanitised to the empty string, the case that
  \<open>get_book_path\<close> provides for with \<open>metadata['book_title'] or 'Unknown Book'\<close>.
\<close>

theorem parse_metadata_counterexample:
  "parse_metadata (world_with_doc blank_doc) (str ''/lib/1/metadata.opf'') =
     Inr \<lparr>author = str ''Ann'', book_title = [], series = None, series_index = None\<rparr>"
  by (simp add: parse_metadata_def world_with_doc_def base_world_def blank_doc_def text_or_def
      sanitize_opt_def content_of_def truthy_def
      sanitize_name_def sanitize_char_def py_isalnum_def ascii_alnum_def
      ucd_none_def safe_chars_def str_def py_strip_def py_isspace_def py_split.simps)

text \<open>
  Outside the amended claim: an empty creator or title element has the text \<open>None\<close>,
  on which \<open>sanitize_name\<close> raises \<open>TypeError\<close>, and an exception of \<open>ET.parse\<close>
  other than \<open>ET.ParseError\<close> is not caught; both leave \<open>parse_metadata\<close>.
\<close>

lemma parse_metadata_empty_element:
  "et_parse w p = Parsed doc \<Longrightarrow> creator_elem doc = Some None \<Longrightarrow> parse_metadata w p = Inl TypeError"
  by (simp add: parse_metadata_def text_or_def sanitize_opt_def)

lemma parse_metadata_empty_title:
  "et_parse w p = Parsed doc \<Longrightarrow> creator_elem doc \<noteq> Some None \<Longrightarrow> title_elem doc = Some None \<Longrightarrow>
     parse_metadata w p = Inl TypeError"
  by (cases "creator_elem doc") (auto simp: parse_metadata_def text_or_def sanitize_opt_def)

lemma parse_metadata_raised:
  "et_parse w p = Raised e \<Longrightarrow> parse_metadata w p = Inl e"
  by (simp add: parse_metadata_def)

section \<open>Path deriver (claim C2)\<close>

lemma starts_with_slash_iff: "starts_with_slash s \<longleftrightarrow> s \<noteq> [] \<and> hd s = 47"
  by (cases s) (auto simp: starts_with_slash_def)

lemma no_slash_not_starts: "47 \<notin> set s \<Longrightarrow> \<not> starts_with_slash s"
  by (cases s) (auto simp: starts_with_slash_def)

lemma join_step_plain:
  "path \<noteq> [] \<Longrightarrow> last path \<noteq> 47 \<Longrightarrow> \<not> starts_with_slash b \<Longrightarrow> join_step path b = path @ [47] @ b"
  by (simp add: join_step_def)

lemma digits_no_slash: "47 \<notin> set (digits n)"
proof (induction n rule: digits.induct)
  case (1 n)
  show ?case
  proof (cases "n < 10")
    case True
    then show ?thesis by (subst digits.simps) simp
  next
    case False
    then have "47 \<notin> set (digits (n div 10))" using 1 by simp
    moreover have "48 + n mod 10 \<noteq> 47" by simp
    ultimately show ?thesis using False by (subst digits.simps) simp
  qed
qed

lemma digits_nonempty: "digits n \<noteq> []"
  by (subst digits.simps) simp

lemma str_of_int_no_slash: "47 \<notin> set (str_of_int i)"
  by (simp add: str_of_int_def digits_no_slash)

lemma book_n_no_slash: "47 \<notin> set (str ''Book '' @ str_of_int i)"
  by (simp add: str_of_int_no_slash) (simp add: str_def)

lemma title_or_unknown_no_slash: "47 \<notin> set (book_title m) \<Longrightarrow> 47 \<notin> set (title_or_unknown m)"
  by (simp add: title_or_unknown_def str_def)

lemma title_or_unknown_nonempty: "title_or_unknown m \<noteq> []"
  by (simp add: title_or_unknown_def str_def)

lemma last_no_slash: "s \<noteq> [] \<Longrightarrow> 47 \<notin> set s \<Longrightarrow> last s \<noteq> 47"
  using last_in_set by metis

lemma join2:
  assumes "a \<noteq> []" "47 \<notin> set a" "47 \<notin> set b"
  shows "os_path_join a [b] = a @ [47] @ b"
  using assms by (simp add: os_path_join_def join_step_plain last_no_slash no_slash_not_starts)

lemma join3:
  assumes "a \<noteq> []" "47 \<notin> set a" "s \<noteq> []" "47 \<notin> set s" "47 \<notin> set b"
  shows "os_path_join a [s, b] = a @ [47] @ s @ [47] @ b"
proof -
  have "join_step a s = a @ [47] @ s"
    using assms by (simp add: join_step_plain last_no_slash no_slash_not_starts)
  moreover have "join_step (a @ [47] @ s) b = (a @ [47] @ s) @ [47] @ b"
    using assms by (intro join_step_plain) (auto simp: no_slash_not_starts last_no_slash)
  ultimately show ?thesis by (simp add: os_path_join_def)
qed

text \<open>
  Claim C2, amended: for every record whose author is non-empty and whose author, series and
  title contain no slash (as the parser's sanitised fields do), \<open>get_book_path\<close>
  computes the path of the specification, where a series that is the empty string counts as
  absent: with a non-empty series and an index that \<open>float\<close> reads as a finite
  number, \<open>{author}/{series}/Book {n}\<close> with \<open>n\<close> the number truncated toward
  zero; with a non-empty series and an index that is missing, rejected by \<open>float\<close> or
  a NaN, \<open>{author}/{series}/{title}\<close>; without a series \<open>{author}/{title}\<close>;
  the title is replaced by \<open>Unknown Book\<close> when it is empty. An index that
  \<open>float\<close> reads as an infinity is left out.
\<close>

theorem get_book_path_amended:
  assumes "author m \<noteq> []" and "47 \<notin> set (author m)" and "47 \<notin> set (book_title m)"
    and "\<forall>s. series m = Some s \<longrightarrow> 47 \<notin> set s"
    and "\<forall>s idx. series m = Some s \<and> s \<noteq> [] \<and> series_index m = Some idx \<longrightarrow>
           float_of_str w idx \<noteq> Some Infinite"
  shows "get_book_path w m =
           Inr (book_path_spec w (m\<lparr>series := (if series m = Some [] then None else series m)\<rparr>))"
proof (cases "truthy (series m)")
  case False
  then have "series m = None \<or> series m = Some []"
    by (cases "series m") (auto simp: truthy_def)
  then have "book_path_spec w (m\<lparr>series := (if series m = Some [] then None else series m)\<rparr>) =
      author m @ [47] @ title_or_unknown m"
    by (auto simp: book_path_spec_def title_or_unknown_def str_def)
  moreover have "os_path_join (author m) [title_or_unknown m] = author m @ [47] @ title_or_unknown m"
    using assms by (intro join2) (auto simp: title_or_unknown_no_slash)
  ultimately show ?thesis using False by (simp add: get_book_path_def)
next
  case True
  then obtain s where s: "series m = Some s" "s \<noteq> []"
    by (cases "series m") (auto simp: truthy_def)
  have ns: "47 \<notin> set s" using assms s by blast
  have jt: "os_path_join (author m) [s, title_or_unknown m] = author m @ [47] @ s @ [47] @ title_or_unknown m"
    using assms ns s by (intro join3) (auto simp: title_or_unknown_no_slash)
  have jb: "\<And>n. os_path_join (author m) [s, str ''Book '' @ str_of_int n] =
      author m @ [47] @ s @ [47] @ str ''Book '' @ str_of_int n"
    using assms ns s book_n_no_slash by (intro join3) blast+
  have slash: "str ''/'' = [47]" by (simp add: str_def)
  have tit: "(if book_title m = [] then str ''Unknown Book'' else book_title m) = title_or_unknown m"
    by (simp add: title_or_unknown_def)
  show ?thesis
  proof (cases "series_index m")
    case None
    then show ?thesis
      using True s jt by (simp add: get_book_path_def int_of_float_of_def book_path_spec_def slash title_or_unknown_def)
  next
    case (Some idx)
    have ninf: "float_of_str w idx \<noteq> Some Infinite" using assms s Some by blast
    show ?thesis
    proof (cases "float_of_str w idx")
      case None
      then show ?thesis
        using True s jt Some by (simp add: get_book_path_def int_of_float_of_def book_path_spec_def slash title_or_unknown_def)
    next
      case (Some f)
      then show ?thesis
        using True s jt jb \<open>series_index m = Some idx\<close> ninf
        by (cases f) (simp_all add: get_book_path_def int_of_float_of_def book_path_spec_def slash title_or_unknown_def)
    qed
  qed
qed

lemma digits_2: "digits 2 = [50]"
  by (subst digits.simps) simp

theorem get_book_path_amended_witness:
  "author foundation_md \<noteq> [] \<and> 47 \<notin> set (author foundation_md) \<and>
   47 \<notin> set (book_title foundation_md) \<and> 47 \<notin> set (str ''Foundation'') \<and>
   float_of_str base_world (str ''2.0'') \<noteq> Some Infinite \<and>
   get_book_path base_world foundation_md = Inr (str ''Isaac Asimov/Foundation/Book 2'')"
proof -
  have h: "author foundation_md \<noteq> []" "47 \<notin> set (author foundation_md)"
    "47 \<notin> set (book_title foundation_md)" "47 \<notin> set (str ''Foundation'')"
    by (simp_all add: foundation_md_def str_def)
  have f: "float_of_str base_world (str ''2.0'') = Some (Finite 2)"
    by (simp add: base_world_def float_demo_def)
  have s: "series foundation_md = Some (str ''Foundation'')" "series_index foundation_md = Some (str ''2.0'')"
    by (simp_all add: foundation_md_def)
  have "get_book_path base_world foundation_md =
      Inr (book_path_spec base_world
        (foundation_md\<lparr>series := (if series foundation_md = Some [] then None else series foundation_md)\<rparr>))"
    using h s f by (intro get_book_path_amended) auto
  also have "\<dots> = Inr (str ''Isaac Asimov/Foundation/Book 2'')"
    by (simp add: book_path_spec_def foundation_md_def f trunc_def str_of_int_def digits_2)
       (simp add: str_def)
  finally show ?thesis using h f by simp
qed

text \<open>
  Claim C2, as stated: a series that is present gives a path with a series directory. The
  test \<open>if metadata['series']\<close> treats a series that is the empty string as absent,
  so the series directory and the index are not used.
\<close>

theorem get_book_path_counterexample:
  "get_book_path base_world empty_series_md = Inr (str ''A/T'') \<and>
   book_path_spec base_world empty_series_md = str ''A//Book 2''"
  by (simp add: get_book_path_def empty_series_md_def truthy_def title_or_unknown_def
      os_path_join_def join_step_def starts_with_slash_def book_path_spec_def
      base_world_def float_demo_def trunc_def str_of_int_def digits_2)
     (simp add: str_def)

lemma get_book_path_infinite_index:
  "truthy (series m) \<Longrightarrow> series_index m = Some idx \<Longrightarrow> float_of_str w idx = Some Infinite \<Longrightarrow>
     get_book_path w m = Inl OverflowError"
  by (simp add: get_book_path_def int_of_float_of_def)

section \<open>Attributes and reading (claims C3 and C4)\<close>

lemmas path_eval = normpath_def initial_slashes_def starts_with_slash_def norm_step_def
  os_path_join_def join_step_def dirname_def basename_def path_head_def rstrip_slash_def
  strip_slash_def Let_def

text \<open>
  Claim C3, amended: with the queried path normalised, \<open>getattr\<close> returns directory
  attributes (mode \<open>0o40755\<close>, two links) when the path is \<open>/\<close> or is in
  \<open>directories\<close> and not in \<open>files\<close>; for a path other than \<open>/\<close> that is in
  \<open>files\<close> it returns regular-file attributes (mode \<open>0o100644\<close>, the live size, one
  link), or fails with \<open>NotFound\<close> when the live size lookup raises an
  \<open>OSError\<close>, whether or not the path is also in \<open>directories\<close>; it fails with
  \<open>NotFound\<close> when the path is in neither.
\<close>

theorem getattr_amended:
  "(normpath path = str ''/'' \<or>
      (normpath path \<in> directories self \<and> normpath path \<notin> dom (files self)) \<longrightarrow>
      getattr w self path = Inr \<lparr>st_mode = 16877, st_size = None, st_nlink = 2\<rparr>) \<and>
   (\<forall>real sz. normpath path \<noteq> str ''/'' \<and> files self (normpath path) = Some real \<and>
      getsize w real = Inr sz \<longrightarrow>
      getattr w self path = Inr \<lparr>st_mode = 33188, st_size = Some sz, st_nlink = 1\<rparr>) \<and>
   (normpath path \<noteq> str ''/'' \<and> normpath path \<notin> dom (files self) \<and>
      normpath path \<notin> directories self \<longrightarrow>
      getattr w self path = Inl NotFound) \<and>
   (\<forall>real e. normpath path \<noteq> str ''/'' \<and> files self (normpath path) = Some real \<and>
      getsize w real = Inl e \<and> is_oserror e \<longrightarrow>
      getattr w self path = Inl NotFound)"
  by (auto simp: getattr_def Let_def dir_attrs_def dir_mode_def file_mode_def)

text \<open>
  Claim C4, amended: for every path, size and offset, \<open>read\<close> fails with
  \<open>NotFound\<close> if and only if the normalised path is not in \<open>files\<close>. For an indexed
  file whose real file opens and is read without an operating-system error, an offset
  from \<open>0\<close> to the largest that \<open>seek\<close> accepts on the filesystem of the real file
  (below \<open>2 ^ 63\<close>), and a size from \<open>0\<close> to the largest buffer that the
  interpreter can allocate (below \<open>2 ^ 63 - 33\<close>), it returns up to \<open>size\<close> bytes
  of the real file starting at \<open>offset\<close>, which is the empty result when the offset is
  at or past the end of the file. A real file that cannot be opened, an offset within the
  signed 64-bit range that is negative or beyond what \<open>seek\<close> accepts, and an
  operating-system error while reading are surfaced as \<open>IOError\<close>.
\<close>

theorem read_amended:
  "(read w self path sz offset = Inl NotFound \<longleftrightarrow> normpath path \<notin> dom (files self)) \<and>
   (\<forall>real content. files self (normpath path) = Some real \<and> file_bytes w real = Inr content \<and>
      0 \<le> offset \<and> offset \<le> int (max_offset w real) \<and> offset < 2 ^ 63 \<and>
      0 \<le> sz \<and> sz \<le> int (max_alloc w) \<and> sz < 2 ^ 63 - 33 \<and> \<not> read_fault w real (nat offset) sz \<longrightarrow>
      read w self path sz offset = Inr (take (nat sz) (drop (nat offset) content)) \<and>
      (int (length content) \<le> offset \<longrightarrow> read w self path sz offset = Inr [])) \<and>
   (\<forall>real. files self (normpath path) = Some real \<and>
      ((\<exists>e. file_bytes w real = Inl e \<and> is_oserror e) \<or>
       (\<exists>content. file_bytes w real = Inr content \<and> - (2 ^ 63) \<le> offset \<and> offset < 2 ^ 63 \<and>
          (offset < 0 \<or> int (max_offset w real) < offset)) \<or>
       (\<exists>content. file_bytes w real = Inr content \<and>
          0 \<le> offset \<and> offset \<le> int (max_offset w real) \<and> offset < 2 ^ 63 \<and>
          0 < sz \<and> sz \<le> int (max_alloc w) \<and> sz < 2 ^ 63 - 33 \<and> read_fault w real (nat offset) sz)) \<longrightarrow>
      read w self path sz offset = Inl IOError)"
proof (intro conjI allI impI)
  show "read w self path sz offset = Inl NotFound \<longleftrightarrow> normpath path \<notin> dom (files self)"
    by (auto simp: read_def Let_def is_oserror_def split: sum.splits)
next
  fix real content
  assume a: "files self (normpath path) = Some real \<and> file_bytes w real = Inr content \<and>
      0 \<le> offset \<and> offset \<le> int (max_offset w real) \<and> offset < 2 ^ 63 \<and>
      0 \<le> sz \<and> sz \<le> int (max_alloc w) \<and> sz < 2 ^ 63 - 33 \<and> \<not> read_fault w real (nat offset) sz"
  then have sk: "file_seek w real offset = Inr (nat offset)" by (simp add: file_seek_def)
  have rd: "file_read w real content (nat offset) sz = Inr (take (nat sz) (drop (nat offset) content))"
    using a by (simp add: file_read_def)
  show r: "read w self path sz offset = Inr (take (nat sz) (drop (nat offset) content))"
    using a sk rd by (simp add: read_def Let_def read_at_def domI)
  show "read w self path sz offset = Inr []" if "int (length content) \<le> offset"
    using r that by simp
next
  fix real
  assume a: "files self (normpath path) = Some real \<and>
      ((\<exists>e. file_bytes w real = Inl e \<and> is_oserror e) \<or>
       (\<exists>content. file_bytes w real = Inr content \<and> - (2 ^ 63) \<le> offset \<and> offset < 2 ^ 63 \<and>
          (offset < 0 \<or> int (max_offset w real) < offset)) \<or>
       (\<exists>content. file_bytes w real = Inr content \<and>
          0 \<le> offset \<and> offset \<le> int (max_offset w real) \<and> offset < 2 ^ 63 \<and>
          0 < sz \<and> sz \<le> int (max_alloc w) \<and> sz < 2 ^ 63 - 33 \<and> read_fault w real (nat offset) sz))"
  then have "\<exists>e. read_at w real sz offset = Inl e \<and> is_oserror e"
    by (auto simp: read_at_def file_seek_def file_read_def is_oserror_def)
  then show "read w self path sz offset = Inl IOError"
    using a by (auto simp: read_def Let_def domI)
qed

text \<open>
  Outside the amended claim: an offset or a size that the file object rejects before the
  operating system is asked, and a buffer that cannot be allocated, raise exceptions that
  the handler of \<open>read\<close> does not catch.
\<close>

lemma read_offset_out_of_range:
  assumes "files self (normpath path) = Some actual" "file_bytes w actual = Inr content"
    and "offset < - (2 ^ 63) \<or> 2 ^ 63 \<le> offset"
  shows "read w self path sz offset = Inl ValueError"
  using assms by (auto simp: read_def Let_def read_at_def file_seek_def is_oserror_def domI)

lemma read_size_out_of_range:
  assumes "files self (normpath path) = Some actual" "file_bytes w actual = Inr content"
    and "0 \<le> offset" "offset \<le> int (max_offset w actual)" "offset < 2 ^ 63"
  shows "sz < - (2 ^ 63) \<or> 2 ^ 63 - 33 \<le> sz \<Longrightarrow> read w self path sz offset = Inl OverflowError"
    and "- (2 ^ 63) \<le> sz \<Longrightarrow> sz < - 1 \<Longrightarrow> read w self path sz offset = Inl ValueError"
    and "int (max_alloc w) < sz \<Longrightarrow> sz < 2 ^ 63 - 33 \<Longrightarrow> read w self path sz offset = Inl MemoryError"
  using assms
  by (auto simp: read_def Let_def read_at_def file_seek_def file_read_def is_oserror_def domI)

lemma hello_norm: "normpath (str ''/A/T/b.txt'') = str ''/A/T/b.txt''"
  "normpath (str ''/A/T/gone.txt'') = str ''/A/T/gone.txt''"
  "normpath (str ''/A/T'') = str ''/A/T''"
  "normpath (str ''/A/x'') = str ''/A/x''"
  by (simp_all add: path_eval str_def)

theorem read_amended_witness:
  "files hello_index (normpath (str ''/A/T/b.txt'')) = Some (str ''/lib/1/b.txt'') \<and>
   file_bytes hello_world (str ''/lib/1/b.txt'') = Inr [104, 101, 108, 108, 111] \<and>
   read hello_world hello_index (str ''/A/T/b.txt'') 3 1 = Inr [101, 108, 108] \<and>
   read hello_world hello_index (str ''/A/T/b.txt'') 3 9 = Inr [] \<and>
   read hello_world hello_index (str ''/A/T/b.txt'') 3 (- 1) = Inl IOError \<and>
   read hello_world hello_index (str ''/A/T/gone.txt'') 3 0 = Inl IOError \<and>
   normpath (str ''/A/x'') \<notin> dom (files hello_index) \<and>
   read hello_world hello_index (str ''/A/x'') 3 0 = Inl NotFound"
proof -
  have f: "files hello_index (normpath (str ''/A/T/b.txt'')) = Some (str ''/lib/1/b.txt'')"
    "files hello_index (normpath (str ''/A/T/gone.txt'')) = Some (str ''/lib/1/gone.txt'')"
    "normpath (str ''/A/x'') \<notin> dom (files hello_index)"
    unfolding hello_norm by (simp_all add: hello_index_def str_def)
  have b: "file_bytes hello_world (str ''/lib/1/b.txt'') = Inr [104, 101, 108, 108, 111]"
    "file_bytes hello_world (str ''/lib/1/gone.txt'') = Inl OSError"
    by (simp_all add: hello_world_def base_world_def str_def)
  have l: "max_offset hello_world (str ''/lib/1/b.txt'') = 17592186040320"
    "max_alloc hello_world = 4294967296" "\<And>pos sz. \<not> read_fault hello_world (str ''/lib/1/b.txt'') pos sz"
    by (simp_all add: hello_world_def base_world_def)
  have o: "is_oserror OSError" by (simp add: is_oserror_def)
  show ?thesis
    using f b l o
      read_amended [of hello_world hello_index "str ''/A/T/b.txt''" 3 1]
      read_amended [of hello_world hello_index "str ''/A/T/b.txt''" 3 9]
      read_amended [of hello_world hello_index "str ''/A/T/b.txt''" 3 "- 1"]
      read_amended [of hello_world hello_index "str ''/A/T/gone.txt''" 3 0]
      read_amended [of hello_world hello_index "str ''/A/x''" 3 0]
    by simp
qed

text \<open>
  Claim C4, as stated: an offset past the end of the file gives the empty result, not an
  error. An offset beyond the largest that the filesystem of the real file supports makes
  \<open>seek\<close> raise \<open>OSError\<close>, which the handler of \<open>read\<close> replaces by
  \<open>OSError(EIO)\<close> like every other failure of the real file.
\<close>

theorem read_counterexample:
  "files hello_index (normpath (str ''/A/T/b.txt'')) = Some (str ''/lib/1/b.txt'') \<and>
   file_bytes hello_world (str ''/lib/1/b.txt'') = Inr [104, 101, 108, 108, 111] \<and>
   read hello_world hello_index (str ''/A/T/b.txt'') 3 17592186044416 = Inl IOError"
proof -
  have "files hello_index (normpath (str ''/A/T/b.txt'')) = Some (str ''/lib/1/b.txt'')"
    unfolding hello_norm by (simp add: hello_index_def str_def)
  moreover have "file_bytes hello_world (str ''/lib/1/b.txt'') = Inr [104, 101, 108, 108, 111]"
    by (simp add: hello_world_def base_world_def str_def)
  moreover have "max_offset hello_world (str ''/lib/1/b.txt'') = 17592186040320"
    by (simp add: hello_world_def base_world_def)
  ultimately show ?thesis
    by (simp add: read_def Let_def read_at_def file_seek_def is_oserror_def domI)
qed

theorem getattr_amended_witness:
  "normpath (str ''/A/T'') \<in> directories hello_index \<and>
   normpath (str ''/A/T'') \<notin> dom (files hello_index) \<and>
   getattr hello_world hello_index (str ''/A/T'') = Inr \<lparr>st_mode = 16877, st_size = None, st_nlink = 2\<rparr> \<and>
   getattr hello_world hello_index (str ''/A/T/b.txt'') = Inr \<lparr>st_mode = 33188, st_size = Some 5, st_nlink = 1\<rparr> \<and>
   getattr hello_world hello_index (str ''/A/T/gone.txt'') = Inl NotFound \<and>
   getattr hello_world hello_index (str ''/A/x'') = Inl NotFound"
proof -
  have f: "files hello_index (normpath (str ''/A/T/b.txt'')) = Some (str ''/lib/1/b.txt'')"
    "files hello_index (normpath (str ''/A/T/gone.txt'')) = Some (str ''/lib/1/gone.txt'')"
    "normpath (str ''/A/x'') \<notin> dom (files hello_index)"
    "normpath (str ''/A/T'') \<notin> dom (files hello_index)"
    unfolding hello_norm by (simp_all add: hello_index_def str_def)
  have d: "normpath (str ''/A/T'') \<in> directories hello_index"
    "normpath (str ''/A/x'') \<notin> directories hello_index"
    unfolding hello_norm by (simp_all add: hello_index_def str_def)
  have n: "normpath (str ''/A/T/b.txt'') \<noteq> str ''/''" "normpath (str ''/A/T/gone.txt'') \<noteq> str ''/''"
    "normpath (str ''/A/x'') \<noteq> str ''/''"
    unfolding hello_norm by (simp_all add: str_def)
  have g: "getsize hello_world (str ''/lib/1/b.txt'') = Inr 5"
    "getsize hello_world (str ''/lib/1/gone.txt'') = Inl OSError" "is_oserror OSError"
    by (simp_all add: hello_world_def base_world_def str_def is_oserror_def)
  show ?thesis
    using f d n g
      getattr_amended [of "str ''/A/T''" hello_index hello_world]
      getattr_amended [of "str ''/A/T/b.txt''" hello_index hello_world]
      getattr_amended [of "str ''/A/T/gone.txt''" hello_index hello_world]
      getattr_amended [of "str ''/A/x''" hello_index hello_world]
    by simp
qed

section \<open>Path components\<close>

lemma tailpath_simps [simp]:
  "tailpath [] = []" "tailpath (c # cs) = 47 # c @ tailpath cs"
  "tailpath (xs @ ys) = tailpath xs @ tailpath ys"
  by (simp_all add: tailpath_def)

lemma py_join_tailpath: "py_join [47] (c # cs) = c @ tailpath cs"
  by (induction cs arbitrary: c) auto

lemma abs_of_join: "abs_of cs = 47 # py_join [47] cs"
  by (cases cs) (simp_all add: abs_of_def py_join_tailpath)

lemma split_on_nonempty [simp]: "split_on sep s \<noteq> []"
  by (induction s) (auto split: list.splits)

lemma split_on_no_sep: "sep \<notin> set s \<Longrightarrow> split_on sep s = [s]"
  by (induction s) auto

lemma split_on_append: "split_on sep (a @ sep # b) = split_on sep a @ split_on sep b"
proof (induction a)
  case Nil
  then show ?case by simp
next
  case (Cons c a)
  then show ?case by (cases "split_on sep a") auto
qed

lemma split_on_tailpath:
  "list_all (\<lambda>c. 47 \<notin> set c) cs \<Longrightarrow> split_on 47 (tailpath cs) = [] # cs"
proof (induction cs rule: rev_induct)
  case Nil
  then show ?case by simp
next
  case (snoc c cs)
  have "tailpath (cs @ [c]) = tailpath cs @ 47 # c" by simp
  then have "split_on 47 (tailpath (cs @ [c])) = split_on 47 (tailpath cs) @ split_on 47 c"
    by (simp only: split_on_append)
  then show ?case using snoc by (simp add: split_on_no_sep)
qed

lemma split_on_elems: "c \<in> set (split_on sep s) \<Longrightarrow> sep \<notin> set c"
proof (induction s arbitrary: c)
  case Nil
  then show ?case by simp
next
  case (Cons x s)
  show ?case
  proof (cases "x = sep")
    case True
    then show ?thesis using Cons by auto
  next
    case False
    obtain h t where ht: "split_on sep s = h # t" by (cases "split_on sep s") auto
    then have "sep \<notin> set h" "\<forall>d \<in> set t. sep \<notin> set d" using Cons.IH by auto
    then show ?thesis using Cons.prems False ht by auto
  qed
qed

lemma plain_all_no_slash: "list_all plain cs \<Longrightarrow> list_all (\<lambda>c. 47 \<notin> set c) cs"
  by (simp add: list_all_iff plain_def)

lemma proper_plain: "proper_name c \<Longrightarrow> plain c"
  by (simp add: proper_name_def)

lemma proper_all_plain: "list_all proper_name cs \<Longrightarrow> list_all plain cs"
  by (simp add: list_all_iff proper_name_def)

lemma split_on_abs_of:
  "list_all plain cs \<Longrightarrow> split_on 47 (abs_of cs) = [] # (if cs = [] then [[]] else cs)"
  using split_on_tailpath [OF plain_all_no_slash, of cs] by (simp add: abs_of_def)

lemma abs_of_inject:
  assumes "list_all plain xs" "list_all plain ys" "abs_of xs = abs_of ys"
  shows "xs = ys"
proof -
  have e: "(if xs = [] then [[]] else xs) = (if ys = [] then [[]] else ys)"
    using split_on_abs_of [OF assms(1)] split_on_abs_of [OF assms(2)] assms(3) by simp
  have nx: "xs \<noteq> [[]]" using assms(1) by (auto simp: plain_def)
  have ny: "ys \<noteq> [[]]" using assms(2) by (auto simp: plain_def)
  show ?thesis
  proof (cases "xs = []")
    case True
    then show ?thesis using e ny by (cases "ys = []") simp_all
  next
    case False
    then show ?thesis using e nx by (cases "ys = []") simp_all
  qed
qed

section \<open>normpath on absolute paths\<close>

lemma norm_step_proper: "proper_name c \<Longrightarrow> norm_step init st c = st @ [c]"
  by (simp add: norm_step_def proper_name_def plain_def)

lemma norm_step_empty [simp]: "norm_step init st [] = st"
  by (simp add: norm_step_def)

lemma normabs_append_proper: "list_all proper_name rs \<Longrightarrow> normabs (cs @ rs) = normabs cs @ rs"
proof (induction rs rule: rev_induct)
  case Nil
  then show ?case by simp
next
  case (snoc r rs)
  have "normabs (cs @ rs @ [r]) = norm_step 1 (normabs (cs @ rs)) r"
    by (simp add: normabs_def)
  also have "\<dots> = normabs (cs @ rs) @ [r]"
    using snoc.prems by (simp add: norm_step_proper)
  finally show ?case using snoc by simp
qed

lemma norm_step_plain:
  "list_all plain st \<Longrightarrow> 47 \<notin> set c \<Longrightarrow> list_all plain (norm_step init st c)"
  by (auto simp: norm_step_def plain_def list_all_iff dest: in_set_butlastD)

lemma norm_fold_plain:
  "list_all plain st \<Longrightarrow> list_all (\<lambda>c. 47 \<notin> set c) cs \<Longrightarrow> list_all plain (foldl (norm_step init) st cs)"
  by (induction cs arbitrary: st) (simp_all add: norm_step_plain)

lemma normabs_plain: "list_all plain cs \<Longrightarrow> list_all plain (normabs cs)"
  unfolding normabs_def by (rule norm_fold_plain) (simp_all add: plain_all_no_slash)

lemma initial_slashes_tailpath:
  "list_all plain cs \<Longrightarrow> cs \<noteq> [] \<Longrightarrow> initial_slashes (tailpath cs) = 1"
  by (cases cs; cases "hd cs") (auto simp: initial_slashes_def starts_with_slash_def plain_def)

lemma normpath_abs_of:
  assumes "list_all plain cs"
  shows "normpath (abs_of cs) = abs_of (normabs cs)"
proof (cases "cs = []")
  case True
  then show ?thesis
    by (simp add: abs_of_def normabs_def normpath_def initial_slashes_def starts_with_slash_def str_def)
next
  case False
  have i: "initial_slashes (tailpath cs) = 1" using assms False by (rule initial_slashes_tailpath)
  have s: "split_on 47 (tailpath cs) = [] # cs"
    using assms by (intro split_on_tailpath plain_all_no_slash)
  have ne: "tailpath cs \<noteq> []" using False by (cases cs) auto
  have "normpath (tailpath cs) = [47] @ py_join [47] (normabs cs)"
    using ne by (simp add: normpath_def i s Let_def normabs_def str_def)
  then have "normpath (tailpath cs) = abs_of (normabs cs)"
    by (simp only: abs_of_join append_Cons append_Nil)
  then show ?thesis using False by (simp only: abs_of_def if_False)
qed

lemma normabs_prefix:
  "j \<le> length (normabs cs) \<Longrightarrow> list_all plain cs \<Longrightarrow>
     \<exists>i \<le> length cs. normabs (take i cs) = take j (normabs cs) \<and> (0 < j \<longrightarrow> 0 < i)"
proof (induction cs arbitrary: j rule: rev_induct)
  case Nil
  then show ?case by (simp add: normabs_def)
next
  case (snoc c cs)
  have step: "normabs (cs @ [c]) = norm_step 1 (normabs cs) c" by (simp add: normabs_def)
  have pl: "list_all plain cs" using snoc.prems by simp
  have IH: "\<And>j. j \<le> length (normabs cs) \<Longrightarrow>
      \<exists>i \<le> length (cs @ [c]). normabs (take i (cs @ [c])) = take j (normabs cs) \<and> (0 < j \<longrightarrow> 0 < i)"
  proof -
    fix j assume "j \<le> length (normabs cs)"
    then obtain i where "i \<le> length cs" "normabs (take i cs) = take j (normabs cs)" "0 < j \<longrightarrow> 0 < i"
      using snoc.IH pl by blast
    then show "\<exists>i \<le> length (cs @ [c]). normabs (take i (cs @ [c])) = take j (normabs cs) \<and> (0 < j \<longrightarrow> 0 < i)"
      by (intro exI [of _ i]) simp
  qed
  have "norm_step 1 (normabs cs) c = normabs cs \<or>
        norm_step 1 (normabs cs) c = normabs cs @ [c] \<or>
        norm_step 1 (normabs cs) c = butlast (normabs cs)"
    by (simp add: norm_step_def)
  then consider (same) "normabs (cs @ [c]) = normabs cs"
    | (push) "normabs (cs @ [c]) = normabs cs @ [c]"
    | (pop) "normabs (cs @ [c]) = butlast (normabs cs)"
    unfolding step by blast
  then show ?case
  proof cases
    case same
    then show ?thesis using IH [of j] snoc.prems by simp
  next
    case push
    show ?thesis
    proof (cases "j \<le> length (normabs cs)")
      case True
      then show ?thesis using IH [of j] push by simp
    next
      case False
      then have "j = length (normabs cs @ [c])" using snoc.prems push by simp
      then have "normabs (take (length (cs @ [c])) (cs @ [c])) = take j (normabs (cs @ [c]))"
        using push by simp
      then show ?thesis by (intro exI [of _ "length (cs @ [c])"]) simp
    qed
  next
    case pop
    have "j \<le> length (normabs cs)" using snoc.prems pop by simp
    moreover have "j \<le> length (butlast (normabs cs))" using snoc.prems pop by simp
    then have "take j (butlast (normabs cs)) = take j (normabs cs)"
      by (metis butlast_conv_take take_take min.absorb1 length_butlast)
    ultimately show ?thesis using IH [of j] pop by simp
  qed
qed

section \<open>dirname and basename\<close>

lemma tailpath_last: "list_all plain cs \<Longrightarrow> cs \<noteq> [] \<Longrightarrow> last (tailpath cs) \<noteq> 47"
proof (induction cs rule: rev_induct)
  case Nil
  then show ?case by simp
next
  case (snoc c cs)
  then have "c \<noteq> []" "47 \<notin> set c" by (simp_all add: plain_def)
  then have "last c \<noteq> 47" using last_in_set [of c] by metis
  then show ?case using \<open>c \<noteq> []\<close> by simp
qed

lemma dirname_abs_of_snoc:
  assumes "list_all plain ys" "plain y"
  shows "dirname (abs_of (ys @ [y])) = abs_of ys"
proof -
  have y: "47 \<notin> set y" using assms by (simp add: plain_def)
  have p: "abs_of (ys @ [y]) = tailpath ys @ 47 # y" by (simp add: abs_of_def)
  have "dropWhile (\<lambda>c. c \<noteq> 47) (rev y @ 47 # rev (tailpath ys)) = 47 # rev (tailpath ys)"
    using y by (subst dropWhile_append2) auto
  then have h: "path_head (abs_of (ys @ [y])) = tailpath ys @ [47]"
    by (simp add: path_head_def p)
  show ?thesis
  proof (cases "ys = []")
    case True
    have "path_head (abs_of (ys @ [y])) = [47]" using h True by simp
    then show ?thesis using True by (simp add: dirname_def Let_def abs_of_def)
  next
    case False
    have l: "last (tailpath ys) \<noteq> 47" using assms False by (intro tailpath_last)
    have ne: "tailpath ys \<noteq> []" using False by (cases ys) auto
    have "last (tailpath ys) \<in> set (tailpath ys)" using ne by simp
    have nrep: "tailpath ys @ [47] \<noteq> replicate (length (tailpath ys @ [47])) 47"
    proof
      assume "tailpath ys @ [47] = replicate (length (tailpath ys @ [47])) 47"
      then have "set (tailpath ys @ [47]) \<subseteq> {47}" by (metis set_replicate_conv_if empty_subsetI subset_refl)
      then show False using \<open>last (tailpath ys) \<in> set (tailpath ys)\<close> l by auto
    qed
    have "hd (rev (tailpath ys)) \<noteq> 47" using l ne by (simp add: hd_rev)
    then have "dropWhile (\<lambda>c. c = 47) (rev (tailpath ys)) = rev (tailpath ys)"
      using ne by (cases "rev (tailpath ys)") auto
    then have "rstrip_slash (tailpath ys @ [47]) = tailpath ys"
      by (simp add: rstrip_slash_def)
    then show ?thesis
      using nrep False unfolding dirname_def Let_def h by (simp add: abs_of_def)
  qed
qed

lemma basename_abs_of_snoc:
  assumes "plain y"
  shows "basename (abs_of (ys @ [y])) = y"
proof -
  have y: "47 \<notin> set y" using assms by (simp add: plain_def)
  have p: "abs_of (ys @ [y]) = tailpath ys @ 47 # y" by (simp add: abs_of_def)
  have "takeWhile (\<lambda>c. c \<noteq> 47) (rev y @ 47 # rev (tailpath ys)) = rev y"
    using y by (subst takeWhile_append2) auto
  then show ?thesis by (simp add: basename_def p)
qed

lemma dirname_root: "dirname (abs_of []) = abs_of []"
  by (simp add: dirname_def path_head_def abs_of_def Let_def)

lemma abs_of_Nil: "abs_of [] = str ''/''"
  by (simp add: abs_of_def str_def)

section \<open>Joining components\<close>

lemma str_slash [simp]: "str ''/'' = [47]"
  by (simp add: str_def)

lemma plain_not_starts: "plain r \<Longrightarrow> \<not> starts_with_slash r"
  by (cases r) (auto simp: plain_def starts_with_slash_def)

lemma plain_last: "plain r \<Longrightarrow> last r \<noteq> 47"
  unfolding plain_def using last_in_set by metis

lemma join_step_ext:
  "p \<noteq> [] \<Longrightarrow> \<not> starts_with_slash r \<Longrightarrow>
     join_step p r = (if last p = 47 then p @ r else p @ 47 # r)"
  by (simp add: join_step_def)

lemma os_path_join_snoc: "os_path_join p (rs @ [r]) = join_step (os_path_join p rs) r"
  by (simp add: os_path_join_def)

lemma os_path_join_Nil [simp]: "os_path_join p [] = p"
  by (simp add: os_path_join_def)

lemma os_path_join_append: "os_path_join p (rs @ qs) = os_path_join (os_path_join p rs) qs"
  by (simp add: os_path_join_def)

lemma tailpath_snoc_last: "plain r \<Longrightarrow> last (p @ tailpath (rs @ [r])) \<noteq> 47"
  using plain_last [of r] by (simp add: plain_def)

lemma os_path_join_plain:
  "p \<noteq> [] \<Longrightarrow> last p \<noteq> 47 \<Longrightarrow> list_all plain rs \<Longrightarrow> os_path_join p rs = p @ tailpath rs"
proof (induction rs rule: rev_induct)
  case Nil
  then show ?case by simp
next
  case (snoc r rs)
  have r: "plain r" using snoc.prems by simp
  have eq: "os_path_join p rs = p @ tailpath rs" using snoc by simp
  have l: "last (p @ tailpath rs) \<noteq> 47"
  proof (cases rs rule: rev_cases)
    case Nil
    then show ?thesis using snoc.prems by simp
  next
    case (snoc qs q)
    then have "plain q" using \<open>list_all plain (rs @ [r])\<close> by simp
    then show ?thesis unfolding snoc by (rule tailpath_snoc_last)
  qed
  have "join_step (p @ tailpath rs) r = (p @ tailpath rs) @ 47 # r"
    using l snoc.prems(1) plain_not_starts [OF r] by (simp add: join_step_ext)
  then show ?case by (simp add: os_path_join_snoc eq)
qed

lemma os_path_join_names:
  "plain r \<Longrightarrow> list_all plain rs \<Longrightarrow> os_path_join r rs = py_join [47] (r # rs)"
proof -
  assume r: "plain r" and rs: "list_all plain rs"
  have "r \<noteq> []" using r by (simp add: plain_def)
  then have "os_path_join r rs = r @ tailpath rs"
    using plain_last [OF r] rs by (rule os_path_join_plain)
  then show ?thesis by (simp add: py_join_tailpath)
qed

lemma os_path_join_author:
  assumes "47 \<notin> set a" "list_all plain bs" "bs \<noteq> []"
  shows "os_path_join a bs = py_join [47] ((if a = [] then [] else [a]) @ bs)"
proof (cases "a = []")
  case True
  obtain b rest where bs: "bs = b # rest" using assms(3) by (cases bs) auto
  have "join_step [] b = b" by (simp add: join_step_def)
  then have "os_path_join a bs = os_path_join b rest"
    using True bs by (simp add: os_path_join_def)
  then show ?thesis using assms bs True by (simp add: os_path_join_names)
next
  case False
  then have "plain a" using assms by (simp add: plain_def)
  then show ?thesis using assms False by (simp add: os_path_join_names)
qed

section \<open>The shape of a virtual book path\<close>

lemma collapse_ws_set: "set (collapse_ws s) \<subseteq> insert 32 (set s)"
  by (induction s rule: collapse_ws.induct) auto

lemma sanitize_char_not_slash: "sanitize_char ucd c \<noteq> 47"
  by (simp add: sanitize_char_class spec_class_def ascii_alnum_def)

lemma sanitize_no_slash: "47 \<notin> set (sanitize_name ucd x)"
proof
  assume "47 \<in> set (sanitize_name ucd x)"
  then have "47 \<in> insert 32 (set (py_strip (map (sanitize_char ucd) x)))"
    using collapse_ws_set unfolding sanitize_name_collapse by blast
  then have "47 \<in> set (map (sanitize_char ucd) x)"
    using py_strip_subset by fastforce
  then show False using sanitize_char_not_slash by auto
qed

lemma parse_metadata_no_slash:
  assumes "parse_metadata w mf = Inr md"
  shows "47 \<notin> set (author md) \<and> 47 \<notin> set (book_title md) \<and>
         (\<forall>s. series md = Some s \<and> s \<noteq> [] \<longrightarrow> 47 \<notin> set s)"
proof (cases "et_parse w mf")
  case ParseError
  then have "md = default_metadata" using assms by (simp add: parse_metadata_def)
  then show ?thesis by (simp add: default_metadata_def str_def)
next
  case (Raised e)
  then show ?thesis using assms by (simp add: parse_metadata_def)
next
  case (Parsed doc)
  obtain a t where a: "sanitize_opt w (text_or (creator_elem doc) (str ''Unknown Author'')) = Inr a"
    and t: "sanitize_opt w (text_or (title_elem doc) (str ''Unknown Title'')) = Inr t"
    and md: "md = \<lparr>author = a, book_title = t,
       series = (if truthy (content_of (series_elem doc))
                 then map_option (sanitize_name (ucd_alnum w)) (content_of (series_elem doc))
                 else content_of (series_elem doc)),
       series_index = content_of (series_index_elem doc)\<rparr>"
    using assms Parsed by (auto simp: parse_metadata_def split: sum.splits)
  have "47 \<notin> set a" "47 \<notin> set t"
    using a t by (auto simp: sanitize_opt_def sanitize_no_slash split: option.splits)
  moreover have "\<forall>s. series md = Some s \<and> s \<noteq> [] \<longrightarrow> 47 \<notin> set s"
    unfolding md by (cases "content_of (series_elem doc)") (auto simp: truthy_def sanitize_no_slash)
  ultimately show ?thesis by (simp add: md)
qed

lemma book_dir_plain: "plain (str ''Book '' @ str_of_int n)"
  using book_n_no_slash [of n] by (simp add: plain_def str_def)

lemma title_or_unknown_plain: "47 \<notin> set (book_title m) \<Longrightarrow> plain (title_or_unknown m)"
  by (simp add: plain_def title_or_unknown_nonempty title_or_unknown_no_slash)

lemma book_path_components:
  assumes "get_book_path w md = Inr vbp"
    and "47 \<notin> set (author md)" "47 \<notin> set (book_title md)"
    and "\<forall>s. series md = Some s \<and> s \<noteq> [] \<longrightarrow> 47 \<notin> set s"
  shows "\<exists>cs. cs \<noteq> [] \<and> list_all plain cs \<and> vbp = py_join [47] cs"
proof -
  have t: "plain (title_or_unknown md)" using assms by (simp add: title_or_unknown_plain)
  have "\<exists>bs. bs \<noteq> [] \<and> list_all plain bs \<and> vbp = os_path_join (author md) bs"
  proof (cases "truthy (series md)")
    case False
    then have "vbp = os_path_join (author md) [title_or_unknown md]"
      using assms(1) by (simp add: get_book_path_def)
    then show ?thesis using t by (intro exI [of _ "[title_or_unknown md]"]) simp
  next
    case True
    then obtain s where s: "series md = Some s" "s \<noteq> []"
      by (cases "series md") (auto simp: truthy_def)
    then have ps: "plain s" using assms by (simp add: plain_def)
    have "vbp = os_path_join (author md) [s, title_or_unknown md] \<or>
          (\<exists>n. vbp = os_path_join (author md) [s, str ''Book '' @ str_of_int n])"
      using assms(1) True s
      by (auto simp: get_book_path_def split: sum.splits error.splits)
    then show ?thesis
    proof
      assume "vbp = os_path_join (author md) [s, title_or_unknown md]"
      then show ?thesis using ps t by (intro exI [of _ "[s, title_or_unknown md]"]) simp
    next
      assume "\<exists>n. vbp = os_path_join (author md) [s, str ''Book '' @ str_of_int n]"
      then obtain n where "vbp = os_path_join (author md) [s, str ''Book '' @ str_of_int n]" ..
      then show ?thesis
        using ps book_dir_plain [of n] by (intro exI [of _ "[s, str ''Book '' @ str_of_int n]"]) simp
    qed
  qed
  then obtain bs where bs: "bs \<noteq> []" "list_all plain bs" "vbp = os_path_join (author md) bs" by blast
  have "vbp = py_join [47] ((if author md = [] then [] else [author md]) @ bs)"
    using os_path_join_author [OF assms(2) bs(2) bs(1)] bs(3) by simp
  moreover have "list_all plain ((if author md = [] then [] else [author md]) @ bs)"
    using bs assms(2) by (simp add: plain_def)
  ultimately show ?thesis using bs(1) by blast
qed

lemma py_join_plain_shape:
  assumes "list_all plain cs" "cs \<noteq> []"
  shows "py_join [47] cs \<noteq> []" "hd (py_join [47] cs) \<noteq> 47" "last (py_join [47] cs) \<noteq> 47"
proof -
  obtain c rest where cs: "cs = c # rest" using assms(2) by (cases cs) auto
  have c: "plain c" "list_all plain rest" using assms cs by simp_all
  have e: "py_join [47] cs = c @ tailpath rest" by (simp add: cs py_join_tailpath)
  show "py_join [47] cs \<noteq> []" using c by (simp add: e plain_def)
  show "hd (py_join [47] cs) \<noteq> 47" using c by (cases c) (auto simp: e plain_def)
  show "last (py_join [47] cs) \<noteq> 47"
  proof (cases "rest = []")
    case True
    then show ?thesis using plain_last [OF c(1)] by (simp add: e)
  next
    case False
    then have "tailpath rest \<noteq> []" by (cases rest) auto
    then show ?thesis using tailpath_last [OF c(2) False] by (simp add: e)
  qed
qed

lemma strip_slash_join:
  assumes "list_all plain cs" "cs \<noteq> []"
  shows "strip_slash (py_join [47] cs) = py_join [47] cs"
proof -
  let ?p = "py_join [47] cs"
  note sh = py_join_plain_shape [OF assms]
  have a: "dropWhile (\<lambda>c. c = 47) ?p = ?p" using sh by (cases ?p) auto
  have "hd (rev ?p) \<noteq> 47" using sh by (simp add: hd_rev)
  then have "dropWhile (\<lambda>c. c = 47) (rev ?p) = rev ?p" using sh by (cases "rev ?p") auto
  then show ?thesis by (simp add: strip_slash_def rstrip_slash_def a)
qed

lemma split_on_join:
  assumes "list_all plain cs" "cs \<noteq> []"
  shows "split_on 47 (py_join [47] cs) = cs"
proof -
  have "split_on 47 (47 # py_join [47] cs) = [] # cs"
    using split_on_abs_of [OF assms(1)] assms(2) by (simp add: abs_of_join)
  then show ?thesis by simp
qed

section \<open>Rebasing a name under the virtual book path\<close>

lemma py_join_not_dot:
  assumes "list_all proper_name rs" "rs \<noteq> []"
  shows "py_join [47] rs \<noteq> str ''.''"
proof (cases rs)
  case Nil
  then show ?thesis using assms by simp
next
  case (Cons r rest)
  show ?thesis
  proof (cases rest)
    case Nil
    then show ?thesis using assms Cons by (simp add: proper_name_def)
  next
    case (Cons q qs)
    have "47 \<in> set (py_join [47] rs)"
      using \<open>rs = r # rest\<close> Cons by (simp add: py_join_tailpath)
    moreover have "47 \<notin> set (str ''.'')" by (simp add: str_def)
    ultimately show ?thesis by metis
  qed
qed

lemma rebase_abs_of:
  assumes "list_all plain cs" "cs \<noteq> []" "list_all proper_name rs" "proper_name name"
  shows "rebase (py_join [47] cs) (rel_of rs) name = abs_of (normabs cs @ rs @ [name])"
proof -
  have pn: "plain name" using assms by (simp add: proper_plain)
  have prs: "list_all plain rs" using assms by (simp add: proper_all_plain)
  have rel: "(if rel_of rs \<noteq> str ''.'' then os_path_join (rel_of rs) [name] else name) =
      py_join [47] (rs @ [name])"
  proof (cases rs)
    case Nil
    then show ?thesis by (simp add: rel_of_def)
  next
    case (Cons r rest)
    have "rel_of rs = py_join [47] rs" using Cons by (simp add: rel_of_def)
    moreover have "py_join [47] rs \<noteq> str ''.''" using assms Cons by (intro py_join_not_dot) simp_all
    moreover have "os_path_join r (rest @ [name]) = py_join [47] (r # rest @ [name])"
      using prs pn Cons by (intro os_path_join_names) simp_all
    moreover have "os_path_join r rest = py_join [47] (r # rest)"
      using prs Cons by (intro os_path_join_names) simp_all
    ultimately show ?thesis using Cons by (simp add: os_path_join_append)
  qed
  have pl: "list_all plain (cs @ rs @ [name])" using assms prs pn by simp
  note sh = py_join_plain_shape [OF assms(1,2)]
  have j1: "join_step [47] (py_join [47] cs) = 47 # py_join [47] cs"
    using sh by (simp add: join_step_def starts_with_slash_iff)
  obtain c rest where cs: "cs = c # rest" using assms(2) by (cases cs) auto
  have nn: "rs @ [name] \<noteq> []" by simp
  have j2: "join_step (47 # py_join [47] cs) (py_join [47] (rs @ [name])) =
      47 # py_join [47] cs @ 47 # py_join [47] (rs @ [name])"
    using sh py_join_plain_shape [of "rs @ [name]"] prs pn
    by (simp add: join_step_def starts_with_slash_iff)
  have "47 # py_join [47] cs @ 47 # py_join [47] (rs @ [name]) = abs_of (cs @ rs @ [name])"
  proof -
    obtain q qs where q: "rs @ [name] = q # qs" by (cases "rs @ [name]") auto
    have "abs_of (cs @ q # qs) = tailpath cs @ 47 # q @ tailpath qs" by (simp add: abs_of_def)
    moreover have "47 # py_join [47] cs = tailpath cs" by (simp add: cs py_join_tailpath)
    moreover have "py_join [47] (q # qs) = q @ tailpath qs" by (simp add: py_join_tailpath)
    ultimately show ?thesis using q by (metis append_Cons append_assoc)
  qed
  then have "os_path_join (str ''/'') [py_join [47] cs, py_join [47] (rs @ [name])] =
      abs_of (cs @ rs @ [name])"
    using j1 j2 by (simp add: os_path_join_def)
  then have "rebase (py_join [47] cs) (rel_of rs) name = normpath (abs_of (cs @ rs @ [name]))"
    unfolding rebase_def rel by simp
  also have "\<dots> = abs_of (normabs (cs @ rs @ [name]))" using pl by (rule normpath_abs_of)
  also have "normabs (cs @ rs @ [name]) = normabs cs @ rs @ [name]"
    using assms normabs_append_proper [of "rs @ [name]" cs] by simp
  finally show ?thesis .
qed

lemma prefix_dir_abs_of:
  assumes "list_all plain cs"
  shows "normpath (str ''/'' @ py_join (str ''/'') (take i cs)) = abs_of (normabs (take i cs))"
proof -
  have "list_all plain (take i cs)" using assms by (auto simp: list_all_iff dest: in_set_takeD)
  then show ?thesis using normpath_abs_of [of "take i cs"] by (simp add: abs_of_join)
qed

section \<open>The structure of a walk\<close>

lemma walk_rel:
  "walk_node (os_path_join topdir rs) node = map (at_top topdir) (rel_walk_node rs node)"
  "walk_entries (os_path_join topdir rs) es = map (at_top topdir) (rel_walk_entries rs es)"
proof (induction rs node and rs es rule: rel_walk_node_rel_walk_entries.induct)
  case (5 rs e es)
  have "os_path_join (os_path_join topdir rs) [fst e] = os_path_join topdir (rs @ [fst e])"
    by (simp add: os_path_join_append)
  then show ?case using 5 by simp
qed (simp_all add: at_top_def)

lemma wf_entries_names: "wf_entries es \<Longrightarrow> list_all proper_name (map fst es)"
  by (induction es) auto

lemma dir_names_subset: "set (dir_names es) \<subseteq> set (map fst es)"
  by (auto simp: dir_names_def)

lemma file_names_subset: "set (file_names es) \<subseteq> set (map fst es)"
  by (auto simp: file_names_def)

lemma walk_proper:
  "wf_node node \<Longrightarrow> list_all proper_name rs \<Longrightarrow>
     \<forall>t \<in> set (rel_walk_node rs node).
       list_all proper_name (fst t) \<and> list_all proper_name (fst (snd t)) \<and>
       list_all proper_name (snd (snd t))"
  "wf_entries es \<Longrightarrow> list_all proper_name rs \<Longrightarrow>
     \<forall>t \<in> set (rel_walk_entries rs es).
       list_all proper_name (fst t) \<and> list_all proper_name (fst (snd t)) \<and>
       list_all proper_name (snd (snd t))"
proof (induction rs node and rs es rule: rel_walk_node_rel_walk_entries.induct)
  case (3 rs entries)
  have n: "list_all proper_name (map fst entries)" using 3 by (simp add: wf_entries_names)
  have "list_all proper_name (dir_names entries)" "list_all proper_name (file_names entries)"
    using n dir_names_subset [of entries] file_names_subset [of entries]
    by (auto simp: list_all_iff)
  then show ?case using 3 by simp
next
  case (5 rs e es)
  then show ?case by auto
qed simp_all

lemma walk_closed:
  "\<forall>t \<in> set (rel_walk_node rs node).
     fst t = rs \<or>
     (\<exists>p \<in> set (rel_walk_node rs node). \<exists>d \<in> set (fst (snd p)). fst t = fst p @ [d])"
  "\<forall>t \<in> set (rel_walk_entries rs es).
     (\<exists>d \<in> set (dir_names es). fst t = rs @ [d]) \<or>
     (\<exists>p \<in> set (rel_walk_entries rs es). \<exists>d \<in> set (fst (snd p)). fst t = fst p @ [d])"
proof (induction rs node and rs es rule: rel_walk_node_rel_walk_entries.induct)
  case (3 rs entries)
  show ?case
  proof
    fix t assume t: "t \<in> set (rel_walk_node rs (Dir entries))"
    show "fst t = rs \<or>
      (\<exists>p \<in> set (rel_walk_node rs (Dir entries)). \<exists>d \<in> set (fst (snd p)). fst t = fst p @ [d])"
    proof (cases "t = (rs, dir_names entries, file_names entries)")
      case True
      then show ?thesis by simp
    next
      case False
      then have te: "t \<in> set (rel_walk_entries rs entries)" using t by simp
      then consider (a) d where "d \<in> set (dir_names entries)" "fst t = rs @ [d]"
        | (b) p d where "p \<in> set (rel_walk_entries rs entries)" "d \<in> set (fst (snd p))" "fst t = fst p @ [d]"
        using 3 by blast
      then show ?thesis
      proof cases
        case a
        then show ?thesis
          by (intro disjI2 bexI [of _ "(rs, dir_names entries, file_names entries)"] bexI [of _ d]) simp_all
      next
        case b
        then show ?thesis by (intro disjI2 bexI [of _ p] bexI [of _ d]) simp_all
      qed
    qed
  qed
next
  case (5 rs e es)
  show ?case
  proof
    fix t assume t: "t \<in> set (rel_walk_entries rs (e # es))"
    then consider (n) "t \<in> set (rel_walk_node (rs @ [fst e]) (snd e))" | (r) "t \<in> set (rel_walk_entries rs es)"
      by auto
    then show "(\<exists>d \<in> set (dir_names (e # es)). fst t = rs @ [d]) \<or>
      (\<exists>p \<in> set (rel_walk_entries rs (e # es)). \<exists>d \<in> set (fst (snd p)). fst t = fst p @ [d])"
    proof cases
      case n
      then have nf: "snd e \<noteq> File" by (cases "snd e") auto
      have fe: "fst e \<in> set (dir_names (e # es))" using nf by (cases e) (simp add: dir_names_def)
      consider (a) "fst t = rs @ [fst e]"
        | (b) p d where "p \<in> set (rel_walk_node (rs @ [fst e]) (snd e))" "d \<in> set (fst (snd p))" "fst t = fst p @ [d]"
        using n 5 by blast
      then show ?thesis
      proof cases
        case a
        then show ?thesis using fe by blast
      next
        case b
        then have "p \<in> set (rel_walk_entries rs (e # es))" by simp
        then show ?thesis using b by blast
      qed
    next
      case r
      then consider (a) d where "d \<in> set (dir_names es)" "fst t = rs @ [d]"
        | (b) p d where "p \<in> set (rel_walk_entries rs es)" "d \<in> set (fst (snd p))" "fst t = fst p @ [d]"
        using 5 by blast
      then show ?thesis
      proof cases
        case a
        then have "d \<in> set (dir_names (e # es))" by (simp add: dir_names_def)
        then show ?thesis using a by blast
      next
        case b
        then have "p \<in> set (rel_walk_entries rs (e # es))" by simp
        then show ?thesis using b by blast
      qed
    qed
  qed
qed simp_all

section \<open>relpath below the start directory\<close>

lemma initial_slashes_join:
  assumes "q \<noteq> []" "plain r"
  shows "initial_slashes (join_step q r) = initial_slashes q"
proof -
  obtain x xs where r: "r = x # xs" "x \<noteq> 47" using assms(2) by (cases r) (auto simp: plain_def)
  have j: "join_step q r = (if last q = 47 then q @ r else q @ 47 # r)"
    using assms plain_not_starts by (simp add: join_step_ext)
  obtain a q1 where q: "q = a # q1" using assms(1) by (cases q) auto
  show ?thesis
  proof (cases q1)
    case Nil
    then show ?thesis using q r j by (simp add: initial_slashes_def starts_with_slash_def)
  next
    case (Cons b q2)
    show ?thesis
    proof (cases q2)
      case Nil
      then show ?thesis using q r j Cons by (simp add: initial_slashes_def starts_with_slash_def)
    next
      case (Cons c q3)
      then show ?thesis using q j \<open>q1 = b # q2\<close>
        by (simp add: initial_slashes_def starts_with_slash_def)
    qed
  qed
qed

lemma stack_join:
  assumes "q \<noteq> []" "proper_name r"
  shows "stack (join_step q r) = stack q @ [r]"
proof -
  have pr: "plain r" using assms by (simp add: proper_plain)
  have ns: "47 \<notin> set r" using pr by (simp add: plain_def)
  have i: "initial_slashes (join_step q r) = initial_slashes q"
    using assms(1) pr by (rule initial_slashes_join)
  show ?thesis
  proof (cases "last q = 47")
    case False
    then have "join_step q r = q @ 47 # r"
      using assms(1) plain_not_starts [OF pr] by (simp add: join_step_ext)
    then have "split_on 47 (join_step q r) = split_on 47 q @ [r]"
      using ns by (simp add: split_on_append split_on_no_sep)
    then show ?thesis using assms(2) by (simp add: stack_def i norm_step_proper)
  next
    case True
    then obtain q' where q': "q = q' @ [47]" using assms(1) by (metis append_butlast_last_id)
    have "join_step q r = q' @ 47 # r"
      using True assms(1) plain_not_starts [OF pr] q' by (simp add: join_step_ext)
    then have a: "split_on 47 (join_step q r) = split_on 47 q' @ [r]"
      using ns by (simp add: split_on_append split_on_no_sep)
    have "split_on 47 (q' @ 47 # []) = split_on 47 q' @ split_on 47 []"
      by (rule split_on_append)
    then have b: "split_on 47 q = split_on 47 q' @ [[]]" using q' by simp
    show ?thesis using assms(2) by (simp add: stack_def i a b norm_step_proper)
  qed
qed

lemma join_step_nonempty: "q \<noteq> [] \<Longrightarrow> join_step q r \<noteq> []"
  by (auto simp: join_step_def starts_with_slash_def split: list.splits)

lemma stack_os_path_join:
  assumes "q \<noteq> []" "list_all proper_name rs"
  shows "os_path_join q rs \<noteq> [] \<and> stack (os_path_join q rs) = stack q @ rs"
  using assms(2)
proof (induction rs rule: rev_induct)
  case Nil
  then show ?case using assms(1) by simp
next
  case (snoc r rs)
  then have IH: "os_path_join q rs \<noteq> []" "stack (os_path_join q rs) = stack q @ rs" by simp_all
  have r: "proper_name r" using snoc.prems by simp
  show ?case
    using IH stack_join [OF IH(1) r] join_step_nonempty [OF IH(1)]
    by (simp add: os_path_join_snoc)
qed

lemma stack_plain: "list_all plain (stack q)"
proof -
  have "list_all (\<lambda>c. 47 \<notin> set c) (split_on 47 q)"
    using split_on_elems by (auto simp: list_all_iff)
  then show ?thesis unfolding stack_def by (intro norm_fold_plain) simp_all
qed

lemma split_on_slashes: "split_on 47 (replicate n 47 @ s) = replicate n [] @ split_on 47 s"
  by (induction n) auto

lemma initial_slashes_abs: "starts_with_slash q \<Longrightarrow> initial_slashes q = 1 \<or> initial_slashes q = 2"
  by (simp add: initial_slashes_def)

lemma normpath_comps:
  assumes "starts_with_slash q"
  shows "filter (\<lambda>x. x \<noteq> []) (split_on 47 (normpath q)) = stack q"
proof -
  have ne: "q \<noteq> []" using assms by (auto simp: starts_with_slash_def)
  have i: "0 < initial_slashes q" using initial_slashes_abs [OF assms] by auto
  have n: "normpath q = replicate (initial_slashes q) 47 @ py_join [47] (stack q)"
    using ne i by (auto simp: normpath_def Let_def stack_def)
  have pl: "list_all plain (stack q)" by (rule stack_plain)
  have f: "filter (\<lambda>x. x \<noteq> []) (stack q) = stack q"
    using pl by (auto simp: list_all_iff plain_def intro: filter_True)
  have "filter (\<lambda>x. x \<noteq> []) (split_on 47 (py_join [47] (stack q))) = stack q"
  proof (cases "stack q = []")
    case True
    then show ?thesis by simp
  next
    case False
    then show ?thesis using split_on_join [OF pl False] f by simp
  qed
  then show ?thesis by (simp add: n split_on_slashes)
qed

lemma os_path_join_hd:
  "q \<noteq> [] \<Longrightarrow> list_all proper_name rs \<Longrightarrow> starts_with_slash (os_path_join q rs) = starts_with_slash q"
proof (induction rs rule: rev_induct)
  case Nil
  then show ?case by simp
next
  case (snoc r rs)
  have ne: "os_path_join q rs \<noteq> []" using stack_os_path_join [of q rs] snoc.prems by simp
  have "\<not> starts_with_slash r" using snoc.prems by (simp add: plain_not_starts proper_plain)
  then have "starts_with_slash (join_step (os_path_join q rs) r) = starts_with_slash (os_path_join q rs)"
    using ne by (cases "os_path_join q rs") (auto simp: join_step_def starts_with_slash_def)
  then show ?case using snoc by (simp add: os_path_join_snoc)
qed

lemma os_path_join_prefix:
  "x \<noteq> [] \<Longrightarrow> list_all proper_name rs \<Longrightarrow> os_path_join (a @ x) rs = a @ os_path_join x rs"
proof (induction rs rule: rev_induct)
  case Nil
  then show ?case by simp
next
  case (snoc r rs)
  have ne: "os_path_join x rs \<noteq> []" using stack_os_path_join [of x rs] snoc.prems by simp
  have nr: "\<not> starts_with_slash r" using snoc.prems by (simp add: plain_not_starts proper_plain)
  have "join_step (a @ os_path_join x rs) r = a @ join_step (os_path_join x rs) r"
    using ne nr by (simp add: join_step_def)
  then show ?case using snoc by (simp add: os_path_join_snoc)
qed

lemma abs_str_join:
  assumes "topdir \<noteq> []" "list_all proper_name rs"
  shows "abs_str w (os_path_join topdir rs) = os_path_join (abs_str w topdir) rs"
proof (cases "starts_with_slash topdir")
  case True
  then show ?thesis using assms by (simp add: abs_str_def os_path_join_hd)
next
  case False
  have s: "\<not> starts_with_slash (os_path_join topdir rs)"
    using False assms by (simp add: os_path_join_hd)
  define a where "a = (if getcwd w = [] \<or> last (getcwd w) = 47 then getcwd w else getcwd w @ [47])"
  have "\<And>p. \<not> starts_with_slash p \<Longrightarrow> os_path_join (getcwd w) [p] = a @ p"
    by (simp add: os_path_join_def join_step_def a_def)
  then show ?thesis
    using s False os_path_join_prefix [OF assms, of a] by (simp add: abs_str_def)
qed

lemma abs_str_absolute:
  "starts_with_slash (getcwd w) \<Longrightarrow> starts_with_slash (abs_str w p)"
  by (cases "getcwd w") (auto simp: abs_str_def os_path_join_def join_step_def starts_with_slash_def)

lemma abs_str_nonempty: "p \<noteq> [] \<Longrightarrow> abs_str w p \<noteq> []"
  by (auto simp: abs_str_def os_path_join_def join_step_def starts_with_slash_def split: list.splits)

lemma commonprefix_append: "commonprefix xs (xs @ ys) = xs"
  by (induction xs) auto

lemma relpath_below:
  assumes "starts_with_slash (getcwd w)" "topdir \<noteq> []" "list_all proper_name rs"
  shows "relpath w (os_path_join topdir rs) topdir = Inr (rel_of rs)"
proof -
  have ne: "os_path_join topdir rs \<noteq> []"
    using stack_os_path_join [OF assms(2,3)] by simp
  have ab: "abspath w p = normpath (abs_str w p)" for p
    by (simp add: abspath_def abs_str_def)
  have a1: "filter (\<lambda>x. x \<noteq> []) (split_on 47 (abspath w topdir)) = stack (abs_str w topdir)"
    unfolding ab using assms(1) by (intro normpath_comps abs_str_absolute)
  have "filter (\<lambda>x. x \<noteq> []) (split_on 47 (abspath w (os_path_join topdir rs))) =
      stack (abs_str w (os_path_join topdir rs))"
    unfolding ab using assms(1) by (intro normpath_comps abs_str_absolute)
  also have "\<dots> = stack (os_path_join (abs_str w topdir) rs)"
    using assms by (simp add: abs_str_join)
  also have "\<dots> = stack (abs_str w topdir) @ rs"
    using stack_os_path_join [OF abs_str_nonempty [OF assms(2)] assms(3)] by simp
  finally have a2: "filter (\<lambda>x. x \<noteq> []) (split_on 47 (abspath w (os_path_join topdir rs))) =
      stack (abs_str w topdir) @ rs" .
  have j: "\<And>r rest. rs = r # rest \<Longrightarrow> os_path_join r rest = py_join [47] rs"
    using assms(3) by (simp add: os_path_join_names proper_plain proper_all_plain)
  have "relpath w (os_path_join topdir rs) topdir =
      (case rs of [] \<Rightarrow> Inr (str ''.'') | r # rest \<Rightarrow> Inr (os_path_join r rest))"
    using ne by (simp add: relpath_def Let_def a1 a2 commonprefix_append)
  then show ?thesis
    using j by (cases rs) (simp_all add: rel_of_def)
qed

section \<open>The effect of the builder's loops\<close>

lemma fold_add_dir:
  "directories (foldl (\<lambda>s x. add_dir s (f x)) self xs) = directories self \<union> f ` set xs \<and>
   files (foldl (\<lambda>s x. add_dir s (f x)) self xs) = files self"
  by (induction xs arbitrary: self) (auto simp: add_dir_def)

lemma fold_add_file:
  "directories (foldl (\<lambda>s x. add_file s (k x) (v x)) self xs) = directories self \<and>
   dom (files (foldl (\<lambda>s x. add_file s (k x) (v x)) self xs)) = dom (files self) \<union> k ` set xs"
  by (induction xs arbitrary: self) (auto simp: add_file_def)

lemma walk_body_effect:
  assumes "relpath w walk_root book_dir = Inr rel"
  shows "\<exists>self'. walk_body w vbp book_dir self (walk_root, ds, fs) = Inr self' \<and>
     directories self' = directories self \<union> (\<lambda>d. rebase vbp rel d) ` set ds \<and>
     dom (files self') = dom (files self) \<union> (\<lambda>f. rebase vbp rel f) ` set fs"
  using assms
    fold_add_file [of "\<lambda>f. rebase vbp rel f" "\<lambda>f. os_path_join walk_root [f]" self fs]
    fold_add_dir [of "\<lambda>d. rebase vbp rel d"
      "foldl (\<lambda>s file. add_file s (rebase vbp rel file) (os_path_join walk_root [file])) self fs" ds]
  by (simp add: walk_body_def)

lemma walk_loop_effect:
  assumes "starts_with_slash (getcwd w)" "topdir \<noteq> []" "list_all plain cs" "cs \<noteq> []"
    and "all_proper ts"
  shows "\<exists>self'. for_each (walk_body w (py_join [47] cs) topdir) self (map (at_top topdir) ts) = Inr self' \<and>
     directories self' = directories self \<union> rebased_dirs (normabs cs) ts \<and>
     dom (files self') = dom (files self) \<union> rebased_files (normabs cs) ts"
  using assms(5)
proof (induction ts arbitrary: self)
  case Nil
  then show ?case by (simp add: rebased_dirs_def rebased_files_def)
next
  case (Cons t ts)
  obtain r ds fs where t: "t = (r, ds, fs)" by (cases t) auto
  have pr: "list_all proper_name r" "list_all proper_name ds" "list_all proper_name fs"
    using Cons.prems t by (simp_all add: all_proper_def)
  have rest: "all_proper ts" using Cons.prems by (simp add: all_proper_def)
  have rel: "relpath w (os_path_join topdir r) topdir = Inr (rel_of r)"
    using assms(1,2) pr(1) by (rule relpath_below)
  obtain s1 where s1: "walk_body w (py_join [47] cs) topdir self (os_path_join topdir r, ds, fs) = Inr s1"
    and d1: "directories s1 = directories self \<union> (\<lambda>d. rebase (py_join [47] cs) (rel_of r) d) ` set ds"
    and f1: "dom (files s1) = dom (files self) \<union> (\<lambda>f. rebase (py_join [47] cs) (rel_of r) f) ` set fs"
    using walk_body_effect [OF rel] by blast
  have rd: "(\<lambda>d. rebase (py_join [47] cs) (rel_of r) d) ` set ds = (\<lambda>d. abs_of (normabs cs @ r @ [d])) ` set ds"
    using pr assms(3,4) by (intro image_cong refl rebase_abs_of) (auto simp: list_all_iff)
  have rf: "(\<lambda>f. rebase (py_join [47] cs) (rel_of r) f) ` set fs = (\<lambda>f. abs_of (normabs cs @ r @ [f])) ` set fs"
    using pr assms(3,4) by (intro image_cong refl rebase_abs_of) (auto simp: list_all_iff)
  obtain s2 where s2: "for_each (walk_body w (py_join [47] cs) topdir) s1 (map (at_top topdir) ts) = Inr s2"
    and d2: "directories s2 = directories s1 \<union> rebased_dirs (normabs cs) ts"
    and f2: "dom (files s2) = dom (files s1) \<union> rebased_files (normabs cs) ts"
    using Cons.IH [OF rest, of s1] by blast
  have "for_each (walk_body w (py_join [47] cs) topdir) self (map (at_top topdir) (t # ts)) = Inr s2"
    using s1 s2 by (simp add: t at_top_def)
  moreover have "directories s2 = directories self \<union> rebased_dirs (normabs cs) (t # ts)"
    using d1 d2 rd by (auto simp: rebased_dirs_def t)
  moreover have "dom (files s2) = dom (files self) \<union> rebased_files (normabs cs) (t # ts)"
    using f1 f2 rf by (auto simp: rebased_files_def t)
  ultimately show ?case by blast
qed

lemma add_prefix_dirs_effect:
  assumes "list_all plain cs"
  shows "directories (add_prefix_dirs self cs) = directories self \<union> prefix_dirs cs \<and>
         files (add_prefix_dirs self cs) = files self"
proof -
  have "(\<lambda>i. normpath (str ''/'' @ py_join (str ''/'') (take i cs))) ` set [1 ..< length cs + 1] =
      prefix_dirs cs"
    unfolding prefix_dirs_def
    by (intro image_cong) (auto simp: prefix_dir_abs_of [OF assms] simp del: str_slash)
  then show ?thesis
    using fold_add_dir [of "\<lambda>i. normpath (str ''/'' @ py_join (str ''/'') (take i cs))" self
        "[1 ..< length cs + 1]"]
    by (simp add: add_prefix_dirs_def del: str_slash)
qed

section \<open>Well-formed trees\<close>

lemma wf_entries_child: "wf_entries es \<Longrightarrow> map_of es n = Some child \<Longrightarrow> wf_node child"
  by (induction es) (auto split: if_splits)

lemma wf_lookup: "wf_node node \<Longrightarrow> lookup node ns = Some m \<Longrightarrow> wf_node m"
proof (induction node ns arbitrary: m rule: lookup.induct)
  case (2 entries n ns)
  then show ?case by (auto split: option.splits dest: wf_entries_child)
qed simp_all

lemma os_walk_rel:
  assumes "wf_world w"
  shows "\<exists>ts. os_walk w topdir = map (at_top topdir) ts \<and> all_proper ts \<and>
           (ts \<noteq> [] \<longrightarrow> topdir \<noteq> []) \<and> parents_listed ts"
proof (cases "node_at w topdir")
  case None
  then show ?thesis by (intro exI [of _ "[]"]) (simp add: os_walk_def all_proper_def parents_listed_def)
next
  case (Some node)
  then have ne: "topdir \<noteq> []" by (auto simp: node_at_def resolve_def split: if_splits)
  obtain ns where "lookup (fs_root w) ns = Some node"
    using Some by (auto simp: node_at_def split: option.splits)
  then have wf: "wf_node node" using assms wf_lookup by (auto simp: wf_world_def)
  have "os_walk w topdir = walk_node (os_path_join topdir []) node"
    using Some by (simp add: os_walk_def)
  then have "os_walk w topdir = map (at_top topdir) (rel_walk_node [] node)"
    by (simp only: walk_rel)
  moreover have "all_proper (rel_walk_node [] node)"
    using walk_proper(1) [OF wf, of "[]"] by (simp add: all_proper_def)
  ultimately show ?thesis
    using walk_closed(1) [of "[]" node] ne
    by (intro exI [of _ "rel_walk_node [] node"]) (simp add: parents_listed_def)
qed

section \<open>The index is closed under parents\<close>

lemma for_each_invariant:
  assumes "\<And>s x s'. P s \<Longrightarrow> body s x = Inr s' \<Longrightarrow> P s'"
  shows "P s \<Longrightarrow> for_each body s xs = Inr s' \<Longrightarrow> P s'"
proof (induction xs arbitrary: s)
  case Nil
  then show ?case by simp
next
  case (Cons x xs)
  then show ?case using assms by (auto split: sum.splits)
qed

lemma prefix_dirs_parent:
  assumes "list_all plain cs" "p \<in> prefix_dirs cs"
  shows "dirname p = str ''/'' \<or> dirname p \<in> prefix_dirs cs"
proof -
  obtain i where i: "1 \<le> i" "i \<le> length cs" "p = abs_of (normabs (take i cs))"
    using assms(2) by (auto simp: prefix_dirs_def)
  define st where "st = normabs (take i cs)"
  have pt: "list_all plain (take i cs)"
    using assms(1) by (auto simp: list_all_iff dest: in_set_takeD)
  have pst: "list_all plain st" unfolding st_def using pt by (rule normabs_plain)
  show ?thesis
  proof (cases st rule: rev_cases)
    case Nil
    then show ?thesis using i st_def dirname_root by (simp add: abs_of_Nil)
  next
    case (snoc ys y)
    have d: "dirname p = abs_of ys"
      using pst snoc i(3) st_def by (simp add: dirname_abs_of_snoc)
    show ?thesis
    proof (cases "ys = []")
      case True
      then show ?thesis using d by (simp add: abs_of_Nil)
    next
      case False
      have "length ys \<le> length (normabs (take i cs))" using snoc st_def by simp
      then obtain i' where i': "i' \<le> length (take i cs)"
        "normabs (take i' (take i cs)) = take (length ys) (normabs (take i cs))"
        "0 < length ys \<longrightarrow> 0 < i'"
        using normabs_prefix [OF _ pt] by blast
      have "take (length ys) (normabs (take i cs)) = ys" using snoc st_def by simp
      moreover have "i' \<le> i" using i'(1) by simp
      then have "take i' (take i cs) = take i' cs" by (simp add: min_absorb1)
      ultimately have "abs_of ys = abs_of (normabs (take i' cs))" using i'(2) by simp
      moreover have "1 \<le> i'" "i' \<le> length cs" using i' False i by auto
      ultimately have "abs_of ys \<in> prefix_dirs cs" by (auto simp: prefix_dirs_def)
      then show ?thesis using d by simp
    qed
  qed
qed

lemma rebased_parent:
  assumes "list_all plain cs" "cs \<noteq> []" "all_proper ts"
    and "parents_listed ts"
    and "t \<in> set ts" "proper_name x"
  shows "dirname (abs_of (normabs cs @ fst t @ [x])) \<in> prefix_dirs cs \<union> rebased_dirs (normabs cs) ts"
proof -
  have pl: "list_all plain (normabs cs @ fst t)"
    using assms by (simp add: normabs_plain all_proper_def proper_all_plain)
  have "dirname (abs_of ((normabs cs @ fst t) @ [x])) = abs_of (normabs cs @ fst t)"
    using pl assms(6) by (intro dirname_abs_of_snoc) (simp_all add: proper_plain)
  then have d: "dirname (abs_of (normabs cs @ fst t @ [x])) = abs_of (normabs cs @ fst t)" by simp
  consider (top) "fst t = []" | (sub) p d' where "p \<in> set ts" "d' \<in> set (fst (snd p))" "fst t = fst p @ [d']"
    using assms(4,5) unfolding parents_listed_def by blast
  then show ?thesis
  proof cases
    case top
    have "abs_of (normabs (take (length cs) cs)) \<in> prefix_dirs cs"
      unfolding prefix_dirs_def using assms(2) by (intro imageI) (cases cs, auto)
    then show ?thesis using d top by simp
  next
    case sub
    then have "abs_of (normabs cs @ fst p @ [d']) \<in> rebased_dirs (normabs cs) ts"
      by (auto simp: rebased_dirs_def)
    then show ?thesis using d sub by simp
  qed
qed

lemma book_body_effect:
  assumes "wf_world w" "book_body w self mf = Inr self'"
  shows "\<exists>cs ts. cs \<noteq> [] \<and> list_all plain cs \<and> all_proper ts \<and> parents_listed ts \<and>
     directories self' = directories self \<union> prefix_dirs cs \<union> rebased_dirs (normabs cs) ts \<and>
     dom (files self') = dom (files self) \<union> rebased_files (normabs cs) ts"
proof -
  obtain md vbp where md: "parse_metadata w mf = Inr md" and vbp: "get_book_path w md = Inr vbp"
    and run: "for_each (walk_body w vbp (dirname mf))
                (add_prefix_dirs self (split_on 47 (strip_slash vbp))) (os_walk w (dirname mf)) = Inr self'"
    using assms(2) by (auto simp: book_body_def split: sum.splits)
  obtain cs where cs: "cs \<noteq> []" "list_all plain cs" "vbp = py_join [47] cs"
    using book_path_components [OF vbp] parse_metadata_no_slash [OF md] by blast
  have comps: "split_on 47 (strip_slash vbp) = cs"
    using cs by (simp add: strip_slash_join split_on_join)
  define s0 where "s0 = add_prefix_dirs self cs"
  have s0: "directories s0 = directories self \<union> prefix_dirs cs" "files s0 = files self"
    using add_prefix_dirs_effect [OF cs(2), of self] by (simp_all add: s0_def)
  obtain ts where ts: "os_walk w (dirname mf) = map (at_top (dirname mf)) ts" "all_proper ts"
    "ts \<noteq> [] \<longrightarrow> dirname mf \<noteq> []" "parents_listed ts"
    using os_walk_rel [OF assms(1)] by blast
  have eff: "directories self' = directories s0 \<union> rebased_dirs (normabs cs) ts \<and>
      dom (files self') = dom (files s0) \<union> rebased_files (normabs cs) ts"
  proof (cases "ts = []")
    case True
    then show ?thesis using run ts(1) comps by (simp add: s0_def rebased_dirs_def rebased_files_def)
  next
    case False
    then have "dirname mf \<noteq> []" using ts(3) by simp
    then obtain s' where "for_each (walk_body w (py_join [47] cs) (dirname mf)) s0
        (map (at_top (dirname mf)) ts) = Inr s'"
      "directories s' = directories s0 \<union> rebased_dirs (normabs cs) ts"
      "dom (files s') = dom (files s0) \<union> rebased_files (normabs cs) ts"
      using walk_loop_effect [OF _ _ cs(2) cs(1) ts(2), of w "dirname mf" s0] assms(1)
      by (auto simp: wf_world_def)
    then show ?thesis using run ts(1) comps cs(3) by (simp add: s0_def)
  qed
  then show ?thesis using cs ts s0 by (intro exI [of _ cs] exI [of _ ts]) simp
qed

lemma book_body_closed:
  assumes "wf_world w" "index_closed self" "book_body w self mf = Inr self'"
  shows "index_closed self'"
proof -
  obtain cs ts where cs: "cs \<noteq> []" "list_all plain cs" and ts: "all_proper ts" "parents_listed ts"
    and D: "directories self' = directories self \<union> prefix_dirs cs \<union> rebased_dirs (normabs cs) ts"
    and F: "dom (files self') = dom (files self) \<union> rebased_files (normabs cs) ts"
    using book_body_effect [OF assms(1,3)] by blast
  show ?thesis
    unfolding index_closed_def
  proof
    fix e assume e: "e \<in> dom (files self') \<union> directories self'"
    then consider (old) "e \<in> dom (files self) \<union> directories self"
      | (pre) "e \<in> prefix_dirs cs"
      | (rdir) "e \<in> rebased_dirs (normabs cs) ts"
      | (rfile) "e \<in> rebased_files (normabs cs) ts"
      using D F by blast
    then show "dirname e = str ''/'' \<or> dirname e \<in> directories self'"
    proof cases
      case old
      then show ?thesis using assms(2) D by (auto simp: index_closed_def)
    next
      case pre
      then show ?thesis using prefix_dirs_parent [OF cs(2) pre] D by auto
    next
      case rdir
      then obtain t d where "t \<in> set ts" "d \<in> set (fst (snd t))" "e = abs_of (normabs cs @ fst t @ [d])"
        by (auto simp: rebased_dirs_def)
      moreover have "proper_name d"
        using \<open>t \<in> set ts\<close> \<open>d \<in> set (fst (snd t))\<close> ts(1) by (auto simp: all_proper_def list_all_iff)
      ultimately show ?thesis
        using rebased_parent [OF cs(2) cs(1) ts(1) ts(2), of t d] D by auto
    next
      case rfile
      then obtain t f where "t \<in> set ts" "f \<in> set (snd (snd t))" "e = abs_of (normabs cs @ fst t @ [f])"
        by (auto simp: rebased_files_def)
      moreover have "proper_name f"
        using \<open>t \<in> set ts\<close> \<open>f \<in> set (snd (snd t))\<close> ts(1) by (auto simp: all_proper_def list_all_iff)
      ultimately show ?thesis
        using rebased_parent [OF cs(2) cs(1) ts(1) ts(2), of t f] D by auto
    qed
  qed
qed

lemma book_body_finite:
  assumes "wf_world w" "index_finite self" "book_body w self mf = Inr self'"
  shows "index_finite self'"
proof -
  obtain cs ts where
    D: "directories self' = directories self \<union> prefix_dirs cs \<union> rebased_dirs (normabs cs) ts"
    and F: "dom (files self') = dom (files self) \<union> rebased_files (normabs cs) ts"
    using book_body_effect [OF assms(1,3)] by blast
  have "finite (prefix_dirs cs)" "finite (rebased_dirs (normabs cs) ts)"
    "finite (rebased_files (normabs cs) ts)"
    by (simp_all add: prefix_dirs_def rebased_dirs_def rebased_files_def)
  then show ?thesis using assms(2) D F by (simp add: index_finite_def)
qed

lemma BookFS_closed:
  assumes "wf_world w" "BookFS w rootdir = Inr self"
  shows "index_closed self"
proof -
  have "index_closed \<lparr>root_dir = rootdir, files = Map.empty, directories = {}\<rparr>"
    by (simp add: index_closed_def)
  moreover have "for_each (book_body w) \<lparr>root_dir = rootdir, files = Map.empty, directories = {}\<rparr>
      (find_metadata_files w \<lparr>root_dir = rootdir, files = Map.empty, directories = {}\<rparr>) = Inr self"
    using assms(2) by (simp add: BookFS_def build_file_structure_def)
  moreover have "\<And>s x s'. index_closed s \<Longrightarrow> book_body w s x = Inr s' \<Longrightarrow> index_closed s'"
    using assms(1) by (rule book_body_closed)
  ultimately show ?thesis
    by (rule for_each_invariant [where P = index_closed and body = "book_body w", rotated])
qed

lemma BookFS_finite:
  assumes "wf_world w" "BookFS w rootdir = Inr self"
  shows "index_finite self"
proof -
  have "index_finite \<lparr>root_dir = rootdir, files = Map.empty, directories = {}\<rparr>"
    by (simp add: index_finite_def)
  moreover have "for_each (book_body w) \<lparr>root_dir = rootdir, files = Map.empty, directories = {}\<rparr>
      (find_metadata_files w \<lparr>root_dir = rootdir, files = Map.empty, directories = {}\<rparr>) = Inr self"
    using assms(2) by (simp add: BookFS_def build_file_structure_def)
  moreover have "\<And>s x s'. index_finite s \<Longrightarrow> book_body w s x = Inr s' \<Longrightarrow> index_finite s'"
    using assms(1) by (rule book_body_finite)
  ultimately show ?thesis
    by (rule for_each_invariant [where P = index_finite and body = "book_body w", rotated])
qed


section \<open>Examples of built indexes\<close>

lemmas build_eval =
  BookFS_def build_file_structure_def find_metadata_files_def os_walk_def node_at_def resolve_def
  resolve_step_def is_dir_def dir_names_def file_names_def book_body_def walk_body_def
  add_prefix_dirs_def add_dir_def add_file_def rebase_def relpath_def abspath_def
  parse_metadata_def text_or_def sanitize_opt_def content_of_def truthy_def
  get_book_path_def title_or_unknown_def int_of_float_of_def
  sanitize_name_def sanitize_char_def py_isalnum_def ascii_alnum_def ucd_none_def safe_chars_def
  py_strip_def py_isspace_def py_split.simps
  normpath_def initial_slashes_def starts_with_slash_def norm_step_def
  os_path_join_def join_step_def dirname_def basename_def path_head_def rstrip_slash_def
  strip_slash_def Let_def upt_rec base_world_def str_def

lemma library_build: "BookFS library_world (str ''/lib'') = Inr library_index"
  by (simp add: build_eval library_world_def library_index_def ann_doc_def bob_doc_def)

lemma collision_build: "BookFS collision_world (str ''/lib'') = Inr collision_index"
  by (simp add: build_eval collision_world_def collision_index_def plain_doc_def series_doc_def
      insert_commute)

lemmas wf_eval = wf_world_def proper_name_def plain_def starts_with_slash_def base_world_def str_def

lemma library_wf: "wf_world library_world"
  by (simp add: wf_eval library_world_def)

lemma collision_wf: "wf_world collision_world"
  by (simp add: wf_eval collision_world_def)

lemmas path_ev = normpath_def initial_slashes_def starts_with_slash_def norm_step_def
  os_path_join_def join_step_def dirname_def basename_def path_head_def rstrip_slash_def
  strip_slash_def Let_def str_def


section \<open>Directory listing\<close>

lemma readdir_entries_lists:
  assumes "directories self = set ds" "dom (files self) = set ks"
  shows "readdir_entries self path =
    set (map basename (filter (\<lambda>e. dirname e = readdir_path path) (ds @ ks)))"
  using assms by (auto simp: readdir_entries_def)


lemma library_lists:
  "directories library_index =
     set [str ''/Bob/T2'', str ''/Bob'', str ''/Ann/T1/sub'', str ''/Ann/T1'', str ''/Ann'']"
  "dom (files library_index) =
     set [str ''/Bob/T2/metadata.opf'', str ''/Ann/T1/sub/c.jpg'', str ''/Ann/T1/metadata.opf'']"
  by (simp_all add: library_index_def)

lemma library_entries_root: "readdir_entries library_index (str ''/'') = {str ''Ann'', str ''Bob''}"
  by (subst readdir_entries_lists [OF library_lists(1) library_lists(2)])
     (simp add: readdir_path_def path_ev insert_commute)



text \<open>
  Claim C3, as stated: a path that is present in \<open>directories\<close> gets directory
  attributes. \<open>getattr\<close> tests \<open>files\<close> first, so a path that two colliding books
  make both a file and a directory gets regular-file attributes.
\<close>

theorem getattr_counterexample:
  "BookFS collision_world (str ''/lib'') = Inr collision_index \<and>
   str ''/A/T/S'' \<in> directories collision_index \<and>
   getattr collision_world collision_index (str ''/A/T/S'') =
     Inr \<lparr>st_mode = 33188, st_size = Some 3, st_nlink = 1\<rparr>"
proof -
  have "getattr collision_world collision_index (str ''/A/T/S'') =
     Inr \<lparr>st_mode = 33188, st_size = Some 3, st_nlink = 1\<rparr>"
    by (simp add: getattr_def collision_index_def collision_world_def base_world_def file_mode_def path_ev)
  moreover have "str ''/A/T/S'' \<in> directories collision_index"
    by (simp add: collision_index_def)
  ultimately show ?thesis using collision_build by simp
qed

section \<open>Resolving the paths of a walk\<close>

lemma resolve_full:
  "resolve w path = (if path = [] then None
     else foldl (resolve_step (fs_root w)) (Some []) (split_on 47 (full_path w path)))"
  by (simp add: resolve_def full_path_def)

lemma resolve_step_None [simp]: "foldl (resolve_step fs) None cs = None"
  by (induction cs) (simp_all add: resolve_step_def)

lemma resolve_step_empty:
  "resolve_step fs x [] = Some pos \<Longrightarrow> x = Some pos"
  by (cases x) (auto simp: resolve_step_def split: if_splits)

lemma resolve_step_empties:
  "foldl (resolve_step fs) x (replicate k []) = Some pos \<Longrightarrow> x = Some pos"
proof (induction k arbitrary: x)
  case 0
  then show ?case by simp
next
  case (Suc k)
  have "foldl (resolve_step fs) (resolve_step fs x []) (replicate k []) = Some pos"
    using Suc.prems by simp
  then have "resolve_step fs x [] = Some pos" by (rule Suc.IH)
  then show ?case by (rule resolve_step_empty)
qed

lemma resolve_step_name:
  assumes "is_dir (lookup fs pos)" "proper_name n" "lookup fs (pos @ [n]) \<noteq> None"
  shows "resolve_step fs (Some pos) n = Some (pos @ [n])"
  using assms by (simp add: resolve_step_def proper_name_def plain_def)

lemma split_on_snoc_sep: "split_on sep (q @ [sep]) = split_on sep q @ [[]]"
  using split_on_append [of sep q "[]"] by simp

lemma split_on_trailing: "split_on 47 (q @ replicate k 47) = split_on 47 q @ replicate k []"
proof (induction k)
  case 0
  then show ?case by simp
next
  case (Suc k)
  have "q @ replicate (Suc k) 47 = (q @ replicate k 47) @ [47]"
    by (simp add: replicate_append_same)
  then have "split_on 47 (q @ replicate (Suc k) 47) = split_on 47 (q @ replicate k 47) @ [[]]"
    by (simp only: split_on_snoc_sep)
  then show ?case using Suc by (simp add: replicate_append_same)
qed

lemma full_path_append: "p \<noteq> [] \<Longrightarrow> full_path w (p @ x) = full_path w p @ x"
  by (cases p) (simp_all add: full_path_def starts_with_slash_def)

lemma full_path_join:
  assumes "p \<noteq> []" "plain n"
  shows "full_path w (join_step p n) = join_step (full_path w p) n"
proof -
  have ns: "\<not> starts_with_slash n" using assms by (simp add: plain_not_starts)
  have l: "last (full_path w p) = last p" "full_path w p \<noteq> []"
    using assms(1) by (auto simp: full_path_def)
  show ?thesis
    using assms(1) ns l by (simp add: join_step_ext full_path_append)
qed

lemma resolve_join:
  assumes "resolve w p = Some pos" "is_dir (lookup (fs_root w) pos)" "proper_name n"
    and "lookup (fs_root w) (pos @ [n]) \<noteq> None"
  shows "resolve w (os_path_join p [n]) = Some (pos @ [n])"
proof -
  have ne: "p \<noteq> []" using assms(1) by (auto simp: resolve_def split: if_splits)
  have pn: "plain n" using assms(3) by (rule proper_plain)
  have ns: "47 \<notin> set n" using pn by (simp add: plain_def)
  define q where "q = full_path w p"
  have qne: "q \<noteq> []" using ne by (auto simp: q_def full_path_def)
  have r: "foldl (resolve_step (fs_root w)) (Some []) (split_on 47 q) = Some pos"
    using assms(1) ne by (simp add: resolve_full q_def)
  have "foldl (resolve_step (fs_root w)) (Some []) (split_on 47 (join_step q n)) = Some (pos @ [n])"
  proof (cases "last q = 47")
    case False
    then have "join_step q n = q @ 47 # n"
      using qne plain_not_starts [OF pn] by (simp add: join_step_ext)
    then have "split_on 47 (join_step q n) = split_on 47 q @ [n]"
      using ns by (simp add: split_on_append split_on_no_sep)
    then show ?thesis using r resolve_step_name [OF assms(2,3,4)] by simp
  next
    case True
    then obtain q' where q': "q = q' @ [47]" using qne by (metis append_butlast_last_id)
    have "join_step q n = q' @ 47 # n"
      using True qne plain_not_starts [OF pn] q' by (simp add: join_step_ext)
    then have a: "split_on 47 (join_step q n) = split_on 47 q' @ [n]"
      using ns by (simp add: split_on_append split_on_no_sep)
    have "split_on 47 q = split_on 47 q' @ [[]]" unfolding q' by (rule split_on_snoc_sep)
    then have "resolve_step (fs_root w) (foldl (resolve_step (fs_root w)) (Some []) (split_on 47 q')) [] = Some pos"
      using r by simp
    then have "foldl (resolve_step (fs_root w)) (Some []) (split_on 47 q') = Some pos"
      by (rule resolve_step_empty)
    then show ?thesis using a resolve_step_name [OF assms(2,3,4)] by simp
  qed
  moreover have "join_step p n \<noteq> []" using ne by (rule join_step_nonempty)
  ultimately show ?thesis
    using full_path_join [OF ne pn] by (simp add: resolve_full os_path_join_def q_def)
qed

lemma lookup_append:
  "lookup node (xs @ ys) = (case lookup node xs of None \<Rightarrow> None | Some m \<Rightarrow> lookup m ys)"
proof (induction node xs rule: lookup.induct)
  case (1 node)
  then show ?case by simp
next
  case (2 entries n ns)
  then show ?case by (auto split: option.splits)
next
  case (3 n ns)
  then show ?case by simp
next
  case (4 n ns)
  then show ?case by simp
qed

lemma lookup_snoc_dir:
  assumes "lookup node (r @ [n]) = Some m"
  shows "is_dir (lookup node r)"
proof (cases "lookup node r")
  case None
  then show ?thesis using assms by (simp add: lookup_append)
next
  case (Some x)
  then have "lookup x [n] = Some m" using assms by (simp add: lookup_append)
  then show ?thesis using Some by (cases x) (simp_all add: is_dir_def)
qed

lemma resolve_names:
  assumes "resolve w topdir = Some pos" "lookup (fs_root w) pos = Some node"
  shows "list_all proper_name r \<Longrightarrow> lookup node r = Some m \<Longrightarrow>
     resolve w (os_path_join topdir r) = Some (pos @ r)"
proof (induction r arbitrary: m rule: rev_induct)
  case Nil
  then show ?case using assms by simp
next
  case (snoc n r)
  have d: "is_dir (lookup node r)" using snoc.prems(2) by (rule lookup_snoc_dir)
  then obtain x where x: "lookup node r = Some x" by (cases "lookup node r") (auto simp: is_dir_def)
  have IH: "resolve w (os_path_join topdir r) = Some (pos @ r)"
    using snoc.IH [OF _ x] snoc.prems(1) by simp
  have l: "lookup (fs_root w) (pos @ r) = lookup node r"
    using assms(2) by (simp add: lookup_append)
  have l2: "lookup (fs_root w) ((pos @ r) @ [n]) = Some m"
    using assms(2) snoc.prems(2) lookup_append [of "fs_root w" pos "r @ [n]"] by simp
  have "resolve w (os_path_join (os_path_join topdir r) [n]) = Some ((pos @ r) @ [n])"
    using IH d l l2 snoc.prems(1) by (intro resolve_join) simp_all
  then show ?case by (simp add: os_path_join_append)
qed

lemma map_of_distinct: "distinct (map fst es) \<Longrightarrow> e \<in> set es \<Longrightarrow> map_of es (fst e) = Some (snd e)"
  by (cases e) simp

lemma rel_walk_lookup:
  "wf_node node \<Longrightarrow> t \<in> set (rel_walk_node rs node) \<Longrightarrow>
     \<exists>r es. fst t = rs @ r \<and> lookup node r = Some (Dir es) \<and>
            fst (snd t) = dir_names es \<and> snd (snd t) = file_names es"
  "wf_entries es0 \<Longrightarrow> t \<in> set (rel_walk_entries rs es0) \<Longrightarrow>
     \<exists>e r es. e \<in> set es0 \<and> fst t = rs @ fst e # r \<and> lookup (snd e) r = Some (Dir es) \<and>
            fst (snd t) = dir_names es \<and> snd (snd t) = file_names es"
proof (induction rs node and rs es0 arbitrary: t and t rule: rel_walk_node_rel_walk_entries.induct)
  case (3 rs entries)
  show ?case
  proof (cases "t = (rs, dir_names entries, file_names entries)")
    case True
    then show ?thesis by (intro exI [of _ "[]"] exI [of _ entries]) simp
  next
    case False
    then have "t \<in> set (rel_walk_entries rs entries)" using 3(3) by simp
    moreover have "wf_entries entries" "distinct (map fst entries)" using 3(2) by simp_all
    ultimately obtain e r es where e: "e \<in> set entries" "fst t = rs @ fst e # r"
      "lookup (snd e) r = Some (Dir es)" "fst (snd t) = dir_names es" "snd (snd t) = file_names es"
      using 3(1) by blast
    have "map_of entries (fst e) = Some (snd e)"
      using \<open>distinct (map fst entries)\<close> e(1) by (rule map_of_distinct)
    then have "lookup (Dir entries) (fst e # r) = Some (Dir es)" using e(3) by simp
    then show ?thesis using e by (intro exI [of _ "fst e # r"] exI [of _ es]) simp
  qed
next
  case (5 rs e es)
  have wf: "wf_node (snd e)" "wf_entries es" using 5(3) by simp_all
  consider (n) "t \<in> set (rel_walk_node (rs @ [fst e]) (snd e))" | (r) "t \<in> set (rel_walk_entries rs es)"
    using 5(4) by auto
  then show ?case
  proof cases
    case n
    then obtain r es' where "fst t = (rs @ [fst e]) @ r" "lookup (snd e) r = Some (Dir es')"
      "fst (snd t) = dir_names es'" "snd (snd t) = file_names es'"
      using 5(1) [OF wf(1)] by blast
    then show ?thesis by (intro exI [of _ e] exI [of _ r] exI [of _ es']) simp
  next
    case r
    then obtain e' r' es' where "e' \<in> set es" "fst t = rs @ fst e' # r'"
      "lookup (snd e') r' = Some (Dir es')" "fst (snd t) = dir_names es'" "snd (snd t) = file_names es'"
      using 5(2) [OF wf(2)] by blast
    then show ?thesis by (intro exI [of _ e'] exI [of _ r'] exI [of _ es']) simp
  qed
qed simp_all

lemma os_walk_nodes:
  assumes "wf_world w" "(p, ds, fs) \<in> set (os_walk w topdir)"
  shows "\<exists>es. node_at w p = Some (Dir es) \<and> ds = dir_names es \<and> fs = file_names es"
proof -
  obtain node where node: "node_at w topdir = Some node"
    using assms(2) by (cases "node_at w topdir") (auto simp: os_walk_def)
  then obtain pos where pos: "resolve w topdir = Some pos" "lookup (fs_root w) pos = Some node"
    by (auto simp: node_at_def split: option.splits)
  have wf: "wf_node node" using assms(1) pos(2) wf_lookup by (auto simp: wf_world_def)
  have "os_walk w topdir = walk_node (os_path_join topdir []) node"
    using node by (simp add: os_walk_def)
  then have "os_walk w topdir = map (at_top topdir) (rel_walk_node [] node)"
    by (simp only: walk_rel)
  then obtain t where t: "t \<in> set (rel_walk_node [] node)" "(p, ds, fs) = at_top topdir t"
    using assms(2) by auto
  obtain r es where r: "fst t = r" "lookup node r = Some (Dir es)"
    "fst (snd t) = dir_names es" "snd (snd t) = file_names es"
    using rel_walk_lookup(1) [OF wf t(1)] by auto
  have pr: "list_all proper_name r"
    using walk_proper(1) [OF wf, of "[]"] t(1) r(1) by auto
  have "resolve w (os_path_join topdir r) = Some (pos @ r)"
    using pos pr r(2) by (rule resolve_names)
  moreover have "lookup (fs_root w) (pos @ r) = Some (Dir es)"
    using pos(2) r(2) by (simp add: lookup_append)
  moreover have "p = os_path_join topdir r" "ds = dir_names es" "fs = file_names es"
    using t(2) r by (cases t; simp add: at_top_def)+
  ultimately show ?thesis by (simp add: node_at_def)
qed

section \<open>The book directory of a discovered descriptor\<close>

lemma takeWhile_replicate: "takeWhile (\<lambda>c. c = a) xs = replicate (length (takeWhile (\<lambda>c. c = a) xs)) a"
  by (induction xs) auto

lemma rstrip_decomp: "\<exists>k. s = rstrip_slash s @ replicate k 47"
proof -
  have "rev s = takeWhile (\<lambda>c. c = 47) (rev s) @ dropWhile (\<lambda>c. c = 47) (rev s)" by simp
  then have "s = rev (dropWhile (\<lambda>c. c = 47) (rev s)) @ rev (takeWhile (\<lambda>c. c = 47) (rev s))"
    by (metis rev_append rev_rev_ident)
  moreover have "rev (takeWhile (\<lambda>c. c = 47) (rev s)) =
      replicate (length (takeWhile (\<lambda>c. c = 47) (rev s))) 47"
    using takeWhile_replicate [of 47 "rev s"] by (metis rev_replicate)
  ultimately show ?thesis unfolding rstrip_slash_def by metis
qed

lemma rstrip_slash_replicate: "rstrip_slash (replicate n 47) = []"
  by (simp add: rstrip_slash_def)

lemma rstrip_slash_Nil_iff: "rstrip_slash s = [] \<longleftrightarrow> s = replicate (length s) 47"
proof
  assume a: "rstrip_slash s = []"
  obtain k where "s = rstrip_slash s @ replicate k 47" using rstrip_decomp by blast
  then have "s = replicate k 47" using a by simp
  then show "s = replicate (length s) 47" by (metis length_replicate)
next
  assume "s = replicate (length s) 47"
  then show "rstrip_slash s = []" using rstrip_slash_replicate by metis
qed

lemma rstrip_slash_snoc: "rstrip_slash (s @ [47]) = rstrip_slash s"
  by (simp add: rstrip_slash_def)

lemma path_head_name: "47 \<notin> set name \<Longrightarrow> path_head (a @ 47 # name) = a @ [47]"
proof -
  assume n: "47 \<notin> set name"
  have "dropWhile (\<lambda>c. c \<noteq> 47) (rev name @ 47 # rev a) = 47 # rev a"
    using n by (subst dropWhile_append2) auto
  then show ?thesis by (simp add: path_head_def)
qed

lemma dirname_descriptor:
  assumes "dirpath \<noteq> []" "plain name"
  shows "dirname (os_path_join dirpath [name]) =
           (if rstrip_slash dirpath = [] then dirpath else rstrip_slash dirpath)"
proof -
  have n: "47 \<notin> set name" using assms(2) by (simp add: plain_def)
  obtain a where a: "os_path_join dirpath [name] = a @ 47 # name"
    and h: "a @ [47] = dirpath \<or> a = dirpath \<and> last dirpath \<noteq> 47"
  proof (cases "last dirpath = 47")
    case True
    then have "dirpath = butlast dirpath @ [47]" using assms(1) by (metis append_butlast_last_id)
    moreover have "os_path_join dirpath [name] = dirpath @ name"
      using True assms plain_not_starts by (simp add: os_path_join_def join_step_ext)
    ultimately have "os_path_join dirpath [name] = butlast dirpath @ 47 # name"
      by (metis append_Cons append_Nil append_assoc)
    then show ?thesis using that \<open>dirpath = butlast dirpath @ [47]\<close> by metis
  next
    case False
    then have "os_path_join dirpath [name] = dirpath @ 47 # name"
      using assms plain_not_starts by (simp add: os_path_join_def join_step_ext)
    then show ?thesis using that False by blast
  qed
  have ph: "path_head (os_path_join dirpath [name]) = a @ [47]"
    unfolding a using n by (rule path_head_name)
  have rs: "rstrip_slash (a @ [47]) = rstrip_slash dirpath"
    using h by (auto simp: rstrip_slash_snoc)
  show ?thesis
  proof (cases "rstrip_slash dirpath = []")
    case True
    then have all: "dirpath = replicate (length dirpath) 47" by (simp add: rstrip_slash_Nil_iff)
    then have "last dirpath = 47" using assms(1)
      by (metis last_replicate length_0_conv)
    then have e: "a @ [47] = dirpath" using h by blast
    have "a @ [47] = replicate (length (a @ [47])) 47" using all e by simp
    then show ?thesis using True e unfolding dirname_def Let_def ph by simp
  next
    case False
    then have "rstrip_slash (a @ [47]) \<noteq> []" using rs by simp
    then have "a @ [47] \<noteq> replicate (length (a @ [47])) 47"
      using rstrip_slash_Nil_iff by blast
    then show ?thesis using False rs unfolding dirname_def Let_def ph by simp
  qed
qed

lemma resolve_rstrip:
  assumes "resolve w dirpath = Some pos" "rstrip_slash dirpath \<noteq> []"
  shows "resolve w (rstrip_slash dirpath) = Some pos"
proof -
  obtain k where k: "dirpath = rstrip_slash dirpath @ replicate k 47" using rstrip_decomp by blast
  define d where "d = rstrip_slash dirpath"
  have ne: "dirpath \<noteq> []" using assms(1) by (auto simp: resolve_def split: if_splits)
  have "full_path w dirpath = full_path w d @ replicate k 47"
    using k assms(2) full_path_append [of d w "replicate k 47"] by (simp add: d_def)
  then have "split_on 47 (full_path w dirpath) = split_on 47 (full_path w d) @ replicate k []"
    by (simp add: split_on_trailing)
  then have "foldl (resolve_step (fs_root w))
      (foldl (resolve_step (fs_root w)) (Some []) (split_on 47 (full_path w d))) (replicate k []) = Some pos"
    using assms(1) ne by (simp add: resolve_full)
  then have "foldl (resolve_step (fs_root w)) (Some []) (split_on 47 (full_path w d)) = Some pos"
    by (rule resolve_step_empties)
  then show ?thesis using assms(2) by (simp add: resolve_full d_def)
qed

lemma book_dir_node:
  assumes "node_at w dirpath = Some node" "plain name"
  shows "node_at w (dirname (os_path_join dirpath [name])) = Some node"
proof -
  obtain pos where pos: "resolve w dirpath = Some pos" "lookup (fs_root w) pos = Some node"
    using assms(1) by (auto simp: node_at_def split: option.splits)
  have ne: "dirpath \<noteq> []" using pos(1) by (auto simp: resolve_def split: if_splits)
  show ?thesis
  proof (cases "rstrip_slash dirpath = []")
    case True
    then show ?thesis using assms dirname_descriptor [OF ne assms(2)] by simp
  next
    case False
    then have "resolve w (rstrip_slash dirpath) = Some pos" using pos(1) by (intro resolve_rstrip)
    then show ?thesis
      using False pos(2) dirname_descriptor [OF ne assms(2)] by (simp add: node_at_def)
  qed
qed

section \<open>The files that a book registers\<close>

lemma store_Nil [simp]: "store m [] = m"
  by (simp add: store_def)

lemma store_append [simp]: "store m (xs @ ys) = store (store m xs) ys"
  by (simp add: store_def)

lemma store_dom: "dom (store m kvs) = dom m \<union> fst ` set kvs"
  by (induction kvs arbitrary: m) (auto simp: store_def)

lemma store_other: "k \<notin> fst ` set kvs \<Longrightarrow> store m kvs k = m k"
  by (induction kvs arbitrary: m) (auto simp: store_def)

lemma store_same:
  assumes "\<forall>kv \<in> set kvs. fst kv = k \<longrightarrow> snd kv = v" "(k, v) \<in> set kvs"
  shows "store m kvs k = Some v"
  using assms
proof (induction kvs arbitrary: m rule: rev_induct)
  case Nil
  then show ?case by simp
next
  case (snoc kv kvs)
  show ?case
  proof (cases "fst kv = k")
    case True
    then have "snd kv = v" using snoc.prems by simp
    then show ?thesis using True by (simp add: store_def)
  next
    case False
    then have "(k, v) \<in> set kvs" using snoc.prems by auto
    then have "store m kvs k = Some v" using snoc.IH snoc.prems by simp
    then show ?thesis using False by (simp add: store_def)
  qed
qed

lemma fold_add_file_store:
  "files (foldl (\<lambda>s x. add_file s (k x) (v x)) self xs) = store (files self) (map (\<lambda>x. (k x, v x)) xs)"
  by (induction xs arbitrary: self) (simp_all add: add_file_def store_def)

lemma walk_body_files:
  assumes "walk_body w vbp book_dir self t = Inr self'"
  shows "files self' = store (files self) (walk_files w vbp book_dir t)"
proof -
  obtain walk_root ds fs where t: "t = (walk_root, ds, fs)" by (cases t) auto
  obtain rel where rel: "relpath w walk_root book_dir = Inr rel"
    using assms t by (auto simp: walk_body_def split: sum.splits)
  show ?thesis
    using assms
      fold_add_file_store [of "\<lambda>f. rebase vbp rel f" "\<lambda>f. os_path_join walk_root [f]" self fs]
      fold_add_dir [of "\<lambda>d. rebase vbp rel d"
        "foldl (\<lambda>s file. add_file s (rebase vbp rel file) (os_path_join walk_root [file])) self fs" ds]
    by (auto simp: walk_body_def walk_files_def t rel)
qed

lemma walk_loop_files:
  "for_each (walk_body w vbp book_dir) self ts = Inr self' \<Longrightarrow>
     files self' = store (files self) (concat (map (walk_files w vbp book_dir) ts))"
proof (induction ts arbitrary: self)
  case Nil
  then show ?case by simp
next
  case (Cons t ts)
  then obtain s1 where s1: "walk_body w vbp book_dir self t = Inr s1"
    "for_each (walk_body w vbp book_dir) s1 ts = Inr self'"
    by (auto split: sum.splits)
  then show ?case using Cons.IH [OF s1(2)] walk_body_files [OF s1(1)] by simp
qed

lemma add_prefix_dirs_files: "files (add_prefix_dirs self cs) = files self"
  unfolding add_prefix_dirs_def
  using fold_add_dir [of "\<lambda>i. normpath (str ''/'' @ py_join (str ''/'') (take i cs))" self
      "[1 ..< length cs + 1]"]
  by (rule conjunct2)

lemma book_body_files:
  assumes "book_body w self mf = Inr self'"
  shows "files self' = store (files self) (book_files w mf)"
proof -
  obtain md vbp where md: "parse_metadata w mf = Inr md" and vbp: "get_book_path w md = Inr vbp"
    and run: "for_each (walk_body w vbp (dirname mf))
                (add_prefix_dirs self (split_on 47 (strip_slash vbp))) (os_walk w (dirname mf)) = Inr self'"
    using assms by (auto simp: book_body_def split: sum.splits)
  show ?thesis
    using walk_loop_files [OF run] by (simp add: book_files_def md vbp add_prefix_dirs_files)
qed

lemma for_each_files:
  "for_each (book_body w) self mfs = Inr self' \<Longrightarrow>
     files self' = store (files self) (concat (map (book_files w) mfs))"
proof (induction mfs arbitrary: self)
  case Nil
  then show ?case by simp
next
  case (Cons mf mfs)
  then obtain s1 where s1: "book_body w self mf = Inr s1" "for_each (book_body w) s1 mfs = Inr self'"
    by (auto split: sum.splits)
  then show ?case using Cons.IH [OF s1(2)] book_body_files [OF s1(1)] by simp
qed

lemma for_each_append:
  "for_each body s (xs @ ys) = Inr s' \<Longrightarrow>
     \<exists>s1. for_each body s xs = Inr s1 \<and> for_each body s1 ys = Inr s'"
  by (induction xs arbitrary: s) (auto split: sum.splits)

section \<open>The descriptor of every discovered book\<close>

lemma descriptor_name: "proper_name (str ''metadata.opf'')"
  by (simp add: proper_name_def plain_def str_def)

lemma descriptor_key:
  assumes "list_all plain cs" "cs \<noteq> []"
  shows "normpath (str ''/'' @ py_join [47] cs @ str ''/metadata.opf'') =
           abs_of (normabs cs @ [str ''metadata.opf''])"
proof -
  obtain c rest where cs: "cs = c # rest" using assms(2) by (cases cs) auto
  have "str ''/metadata.opf'' = 47 # str ''metadata.opf''" by (simp add: str_def)
  then have "str ''/'' @ py_join [47] cs @ str ''/metadata.opf'' = abs_of (cs @ [str ''metadata.opf''])"
    by (simp add: cs abs_of_def py_join_tailpath)
  moreover have "list_all plain (cs @ [str ''metadata.opf''])"
    using assms(1) descriptor_name by (simp add: proper_plain)
  ultimately have "normpath (str ''/'' @ py_join [47] cs @ str ''/metadata.opf'') =
      abs_of (normabs (cs @ [str ''metadata.opf'']))"
    using normpath_abs_of by simp
  then show ?thesis
    using normabs_append_proper [of "[str ''metadata.opf'']" cs] descriptor_name by simp
qed

lemma walk_files_rel:
  assumes "starts_with_slash (getcwd w)" "topdir \<noteq> []" "list_all plain cs" "cs \<noteq> []"
    and "list_all proper_name (fst t)" "list_all proper_name (snd (snd t))"
  shows "walk_files w (py_join [47] cs) topdir (at_top topdir t) =
     map (\<lambda>f. (abs_of (normabs cs @ fst t @ [f]), os_path_join topdir (fst t @ [f]))) (snd (snd t))"
proof -
  obtain r ds fs where t: "t = (r, ds, fs)" by (cases t) auto
  have rel: "relpath w (os_path_join topdir r) topdir = Inr (rel_of r)"
    using assms(1,2,5) t by (intro relpath_below) simp_all
  have "map (\<lambda>f. (rebase (py_join [47] cs) (rel_of r) f, os_path_join (os_path_join topdir r) [f])) fs =
      map (\<lambda>f. (abs_of (normabs cs @ r @ [f]), os_path_join topdir (r @ [f]))) fs"
    using assms(3,4,5,6) t
    by (intro map_cong refl) (simp add: rebase_abs_of os_path_join_append list_all_iff)
  then show ?thesis by (simp add: walk_files_def at_top_def t rel)
qed

lemma own_descriptor:
  assumes "wf_world w" "(dirpath, ds, fs) \<in> set (os_walk w rootdir)"
    and "str ''metadata.opf'' \<in> set fs" "mf = os_path_join dirpath [str ''metadata.opf'']"
    and "parse_metadata w mf = Inr md" "get_book_path w md = Inr vbp"
  shows "(normpath (str ''/'' @ vbp @ str ''/metadata.opf''),
          os_path_join (dirname mf) [str ''metadata.opf'']) \<in> set (book_files w mf) \<and>
         (\<forall>kv \<in> set (book_files w mf).
            fst kv = normpath (str ''/'' @ vbp @ str ''/metadata.opf'') \<longrightarrow>
            snd kv = os_path_join (dirname mf) [str ''metadata.opf''])"
proof -
  define bd where "bd = dirname mf"
  define name where "name = str ''metadata.opf''"
  have pn: "proper_name name" unfolding name_def by (rule descriptor_name)
  obtain es where es: "node_at w dirpath = Some (Dir es)" "fs = file_names es"
    using os_walk_nodes [OF assms(1,2)] by blast
  have nb: "node_at w bd = Some (Dir es)"
    unfolding bd_def assms(4) using es(1) descriptor_name by (intro book_dir_node proper_plain)
  then have bne: "bd \<noteq> []" by (auto simp: node_at_def resolve_def split: if_splits)
  obtain pos where "lookup (fs_root w) pos = Some (Dir es)"
    using nb by (auto simp: node_at_def split: option.splits)
  moreover have "wf_node (fs_root w)" using assms(1) by (simp add: wf_world_def)
  ultimately have wf: "wf_node (Dir es)" by (rule wf_lookup [rotated])
  define ts where "ts = rel_walk_node [] (Dir es)"
  have "os_walk w bd = walk_node (os_path_join bd []) (Dir es)" using nb by (simp add: os_walk_def)
  then have walk: "os_walk w bd = map (at_top bd) ts" unfolding ts_def by (simp only: walk_rel)
  have allp: "\<forall>t \<in> set ts. list_all proper_name (fst t) \<and> list_all proper_name (snd (snd t))"
    unfolding ts_def using walk_proper(1) [OF wf, of "[]"] by simp
  obtain cs where cs: "cs \<noteq> []" "list_all plain cs" "vbp = py_join [47] cs"
    using book_path_components [OF assms(6)] parse_metadata_no_slash [OF assms(5)] by blast
  have cwd: "starts_with_slash (getcwd w)" using assms(1) by (simp add: wf_world_def)
  define pair where "pair = (\<lambda>x. (abs_of (normabs cs @ x), os_path_join bd x))"
  have wfiles: "walk_files w vbp bd (at_top bd t) = map (\<lambda>f. pair (fst t @ [f])) (snd (snd t))"
    if "t \<in> set ts" for t
    using walk_files_rel [OF cwd bne cs(2) cs(1), of t] allp that by (simp add: cs(3) pair_def)
  have "map (walk_files w vbp bd) (map (at_top bd) ts) =
      map (\<lambda>t. map (\<lambda>f. pair (fst t @ [f])) (snd (snd t))) ts"
    unfolding map_map by (rule map_cong [OF refl]) (simp add: wfiles)
  moreover have "book_files w mf = concat (map (walk_files w vbp bd) (map (at_top bd) ts))"
    by (simp add: book_files_def assms(5,6) bd_def [symmetric] walk del: map_map)
  ultimately have bf:
    "book_files w mf = concat (map (\<lambda>t. map (\<lambda>f. pair (fst t @ [f])) (snd (snd t))) ts)"
    by (simp only:)
  have key: "normpath (str ''/'' @ vbp @ str ''/metadata.opf'') = abs_of (normabs cs @ [name])"
    unfolding cs(3) name_def using cs(2,1) by (rule descriptor_key)
  have t0: "([], dir_names es, file_names es) \<in> set ts" by (simp add: ts_def)
  have "name \<in> set (file_names es)" using assms(3) es(2) by (simp add: name_def)
  then have own: "pair [name] \<in> set (book_files w mf)"
    unfolding bf using t0 by (auto intro!: bexI [of _ "([], dir_names es, file_names es)"])
  have uniq: "snd kv = os_path_join bd [name]"
    if kv: "kv \<in> set (book_files w mf)" "fst kv = abs_of (normabs cs @ [name])" for kv
  proof -
    obtain t f where tf: "t \<in> set ts" "f \<in> set (snd (snd t))" "kv = pair (fst t @ [f])"
      using kv(1) unfolding bf by auto
    have np: "list_all plain (normabs cs)" using cs(2) by (rule normabs_plain)
    have "list_all plain (fst t)" "plain f"
      using allp tf(1,2) by (auto simp: list_all_iff proper_plain)
    then have pl: "list_all plain (normabs cs @ fst t @ [f])" using np by simp
    have pl2: "list_all plain (normabs cs @ [name])"
      using np pn by (simp add: proper_plain)
    have "abs_of (normabs cs @ fst t @ [f]) = abs_of (normabs cs @ [name])"
      using kv(2) tf(3) by (simp add: pair_def)
    then have "normabs cs @ fst t @ [f] = normabs cs @ [name]"
      using pl pl2 by (rule abs_of_inject [rotated 2])
    then have "fst t @ [f] = [name]" by simp
    then show ?thesis using tf(3) by (simp add: pair_def)
  qed
  show ?thesis
    using own uniq key by (simp add: pair_def bd_def name_def)
qed

lemma found_descriptor:
  assumes "mf \<in> set (find_metadata_files w self)"
  shows "\<exists>dirpath ds fs. (dirpath, ds, fs) \<in> set (os_walk w (root_dir self)) \<and>
           str ''metadata.opf'' \<in> set fs \<and> mf = os_path_join dirpath [str ''metadata.opf'']"
  using assms by (auto simp: find_metadata_files_def)

text \<open>
  Claim C10, amended: after a build that completes, for every discovered descriptor the
  parser and the path deriver have returned a virtual book path, and the \<open>files\<close>
  mapping has the key \<open>/{virtual book path}/metadata.opf\<close> (normalised). Its value is
  the real path of that descriptor, unless a book discovered later registers a file under
  the same key: the last registration is the one that stays.
\<close>

theorem descriptor_registered:
  assumes "wf_world w" and "BookFS w rootdir = Inr self"
    and "find_metadata_files w \<lparr>root_dir = rootdir, files = Map.empty, directories = {}\<rparr> =
           earlier @ mf # later"
  shows "\<exists>md vbp. parse_metadata w mf = Inr md \<and> get_book_path w md = Inr vbp \<and>
           normpath (str ''/'' @ vbp @ str ''/metadata.opf'') \<in> dom (files self) \<and>
           ((\<forall>other \<in> set later.
               normpath (str ''/'' @ vbp @ str ''/metadata.opf'') \<notin> fst ` set (book_files w other)) \<longrightarrow>
            files self (normpath (str ''/'' @ vbp @ str ''/metadata.opf'')) =
              Some (os_path_join (dirname mf) [str ''metadata.opf'']))"
proof -
  define self0 where "self0 = \<lparr>root_dir = rootdir, files = Map.empty, directories = {}\<rparr>"
  have run: "for_each (book_body w) self0 (earlier @ mf # later) = Inr self"
    using assms(2,3) by (simp add: BookFS_def build_file_structure_def self0_def)
  then obtain s1 where s1: "for_each (book_body w) self0 earlier = Inr s1"
    "for_each (book_body w) s1 (mf # later) = Inr self"
    using for_each_append [of "book_body w" self0 earlier "mf # later" self] by blast
  then obtain s2 where s2: "book_body w s1 mf = Inr s2" "for_each (book_body w) s2 later = Inr self"
    by (auto split: sum.splits)
  obtain md vbp where md: "parse_metadata w mf = Inr md" and vbp: "get_book_path w md = Inr vbp"
    using s2(1) by (auto simp: book_body_def split: sum.splits)
  define key where "key = normpath (str ''/'' @ vbp @ str ''/metadata.opf'')"
  define val where "val = os_path_join (dirname mf) [str ''metadata.opf'']"
  have "mf \<in> set (find_metadata_files w self0)" using assms(3) by (simp add: self0_def)
  then obtain dirpath ds fs where d: "(dirpath, ds, fs) \<in> set (os_walk w rootdir)"
    "str ''metadata.opf'' \<in> set fs" "mf = os_path_join dirpath [str ''metadata.opf'']"
    using found_descriptor [of mf w self0] by (auto simp: self0_def)
  have own: "(key, val) \<in> set (book_files w mf)"
    "\<forall>kv \<in> set (book_files w mf). fst kv = key \<longrightarrow> snd kv = val"
    using own_descriptor [OF assms(1) d md vbp] by (simp_all add: key_def val_def)
  have f2: "files s2 key = Some val"
    using book_body_files [OF s2(1)] store_same [OF own(2) own(1)] by simp
  have fin: "files self = store (files s2) (concat (map (book_files w) later))"
    using s2(2) by (rule for_each_files)
  have "key \<in> dom (files self)"
    using f2 unfolding fin store_dom by blast
  moreover have "files self key = Some val"
    if "\<forall>other \<in> set later. key \<notin> fst ` set (book_files w other)"
  proof -
    have "key \<notin> fst ` set (concat (map (book_files w) later))" using that by auto
    then show ?thesis using f2 unfolding fin by (simp add: store_other)
  qed
  ultimately show ?thesis
    using md vbp unfolding key_def val_def by blast
qed

section \<open>Examples of descriptors in built indexes\<close>

lemma twin_build: "BookFS twin_world (str ''/lib'') = Inr twin_index"
  by (simp add: build_eval twin_world_def twin_index_def plain_doc_def insert_commute)

lemma dot_build: "BookFS dot_world (str ''/lib'') = Inr dot_index"
  by (simp add: build_eval dot_world_def dot_index_def plain_doc_def insert_commute)

lemma dot_wf: "wf_world dot_world"
  by (simp add: wf_eval dot_world_def)

lemma library_found:
  "find_metadata_files library_world \<lparr>root_dir = str ''/lib'', files = Map.empty, directories = {}\<rparr> =
     [] @ str ''/lib/1/metadata.opf'' # [str ''/lib/2/metadata.opf'']"
  by (simp add: build_eval library_world_def)

lemma twin_found:
  "find_metadata_files twin_world \<lparr>root_dir = str ''/lib'', files = Map.empty, directories = {}\<rparr> =
     [str ''/lib/1/metadata.opf'', str ''/lib/2/metadata.opf'']"
  by (simp add: build_eval twin_world_def)

lemma library_ann:
  "parse_metadata library_world (str ''/lib/1/metadata.opf'') =
     Inr \<lparr>author = str ''Ann'', book_title = str ''T1'', series = None, series_index = None\<rparr>"
  "get_book_path library_world
     \<lparr>author = str ''Ann'', book_title = str ''T1'', series = None, series_index = None\<rparr> =
     Inr (str ''Ann/T1'')"
  by (simp_all add: build_eval library_world_def ann_doc_def)

lemma library_bob_files:
  "book_files library_world (str ''/lib/2/metadata.opf'') =
     [(str ''/Bob/T2/metadata.opf'', str ''/lib/2/metadata.opf'')]"
  by (simp add: book_files_def walk_files_def build_eval library_world_def bob_doc_def)

theorem descriptor_registered_witness:
  "wf_world library_world \<and> BookFS library_world (str ''/lib'') = Inr library_index \<and>
   find_metadata_files library_world \<lparr>root_dir = str ''/lib'', files = Map.empty, directories = {}\<rparr> =
     [] @ str ''/lib/1/metadata.opf'' # [str ''/lib/2/metadata.opf''] \<and>
   get_book_path library_world
     \<lparr>author = str ''Ann'', book_title = str ''T1'', series = None, series_index = None\<rparr> =
     Inr (str ''Ann/T1'') \<and>
   str ''/Ann/T1/metadata.opf'' \<notin> fst ` set (book_files library_world (str ''/lib/2/metadata.opf'')) \<and>
   files library_index (str ''/Ann/T1/metadata.opf'') = Some (str ''/lib/1/metadata.opf'')"
proof -
  have k: "normpath (str ''/'' @ str ''Ann/T1'' @ str ''/metadata.opf'') = str ''/Ann/T1/metadata.opf''"
    by (simp add: path_ev)
  have v: "os_path_join (dirname (str ''/lib/1/metadata.opf'')) [str ''metadata.opf''] =
      str ''/lib/1/metadata.opf''"
    by (simp add: path_ev)
  have n: "str ''/Ann/T1/metadata.opf'' \<notin> fst ` set (book_files library_world (str ''/lib/2/metadata.opf''))"
    unfolding library_bob_files by (simp add: str_def)
  obtain md vbp where md: "parse_metadata library_world (str ''/lib/1/metadata.opf'') = Inr md"
    and vbp: "get_book_path library_world md = Inr vbp"
    and r: "(\<forall>other \<in> set [str ''/lib/2/metadata.opf''].
               normpath (str ''/'' @ vbp @ str ''/metadata.opf'') \<notin> fst ` set (book_files library_world other)) \<longrightarrow>
            files library_index (normpath (str ''/'' @ vbp @ str ''/metadata.opf'')) =
              Some (os_path_join (dirname (str ''/lib/1/metadata.opf'')) [str ''metadata.opf''])"
    using descriptor_registered [OF library_wf library_build library_found] by blast
  have "vbp = str ''Ann/T1''" using md vbp library_ann by simp
  then have "files library_index (str ''/Ann/T1/metadata.opf'') = Some (str ''/lib/1/metadata.opf'')"
    using r n unfolding v by (simp only: k list.set ball_simps simp_thms)
  then show ?thesis
    using library_wf library_build library_found library_ann(2) n by blast
qed

text \<open>
  Claim C10, as stated: the key of every discovered descriptor is mapped to its real
  path. Two books with the same author and title have the same key, and the one that is
  discovered last is the one that the key is mapped to.
\<close>

theorem descriptor_counterexample:
  "BookFS twin_world (str ''/lib'') = Inr twin_index \<and>
   find_metadata_files twin_world \<lparr>root_dir = str ''/lib'', files = Map.empty, directories = {}\<rparr> =
     [str ''/lib/1/metadata.opf'', str ''/lib/2/metadata.opf''] \<and>
   parse_metadata twin_world (str ''/lib/1/metadata.opf'') =
     Inr \<lparr>author = str ''A'', book_title = str ''T'', series = None, series_index = None\<rparr> \<and>
   get_book_path twin_world
     \<lparr>author = str ''A'', book_title = str ''T'', series = None, series_index = None\<rparr> =
     Inr (str ''A/T'') \<and>
   files twin_index (str ''/A/T/metadata.opf'') = Some (str ''/lib/2/metadata.opf'') \<and>
   files twin_index (str ''/A/T/metadata.opf'') \<noteq> Some (str ''/lib/1/metadata.opf'')"
proof -
  have "parse_metadata twin_world (str ''/lib/1/metadata.opf'') =
     Inr \<lparr>author = str ''A'', book_title = str ''T'', series = None, series_index = None\<rparr>"
    "get_book_path twin_world
       \<lparr>author = str ''A'', book_title = str ''T'', series = None, series_index = None\<rparr> =
     Inr (str ''A/T'')"
    by (simp_all add: build_eval twin_world_def plain_doc_def)
  moreover have "files twin_index (str ''/A/T/metadata.opf'') = Some (str ''/lib/2/metadata.opf'')"
    "files twin_index (str ''/A/T/metadata.opf'') \<noteq> Some (str ''/lib/1/metadata.opf'')"
    by (simp_all add: twin_index_def str_def)
  ultimately show ?thesis using twin_build twin_found by simp
qed


end
